theory Spec2Isabelle
  imports Complex_Main "HOL-Library.AList" "HOL-Library.Code_Target_Numeral"
begin

section \<open>Paths, numbers and marker text\<close>

text \<open>
  A path is the list of its components: \<open>outputs/R1/a.pdf\<close> is
  \<open>[''outputs'', ''R1'', ''a.pdf'']\<close>. An empty component stands for a doubled or
  trailing slash; the only place the scheduler produces one is \<open>full.slice(0, -11)\<close>
  on a file named exactly \<open>.downloaded\<close>, which yields \<open>dir/\<close>.
\<close>

type_synonym path = "string list"

definition MARKER_DOWNLOADED :: string where
  "MARKER_DOWNLOADED = ''.downloaded''"

definition MARKER_CREATED :: string where
  "MARKER_CREATED = ''.created''"

definition IMMEDIATE_DELETE :: int where
  "IMMEDIATE_DELETE = 0"

definition TEN_MIN :: int where
  "TEN_MIN = 10 * 60 * 1000"

definition ONE_DAY :: int where
  "ONE_DAY = 24 * 60 * 60 * 1000"

text \<open>\<open>filePath + suffix\<close>: string concatenation lands in the last component.\<close>

definition append_str :: "path \<Rightarrow> string \<Rightarrow> path" where
  "append_str p suf = (if p = [] then [suf] else butlast p @ [last p @ suf])"

text \<open>\<open>full.slice(0, -n)\<close>, used only where the last component has at least n characters.\<close>

definition slice_end :: "path \<Rightarrow> nat \<Rightarrow> path" where
  "slice_end p n = (if p = [] then [] else butlast p @ [take (length (last p) - n) (last p)])"

text \<open>\<open>name.endsWith(suffix)\<close>.\<close>

definition endsWith :: "string \<Rightarrow> string \<Rightarrow> bool" where
  "endsWith s suf = (length suf \<le> length s \<and> drop (length s - length suf) s = suf)"

text \<open>\<open>path.join(dir, name)\<close> for a directory path and an entry name read from it.\<close>

definition join :: "path \<Rightarrow> string \<Rightarrow> path" where
  "join dir nm = dir @ [nm]"

text \<open>The stored location a path denotes: empty components are skipped.\<close>

definition resolve :: "path \<Rightarrow> path" where
  "resolve p = filter (\<lambda>c. c \<noteq> []) p"

definition trailing_slash :: "path \<Rightarrow> bool" where
  "trailing_slash p = (p \<noteq> [] \<and> last p = [])"

text \<open>\<open>path.dirname\<close>: trailing slashes are ignored, then the last component is dropped.\<close>

definition dirname :: "path \<Rightarrow> path" where
  "dirname p = butlast (rev (dropWhile (\<lambda>c. c = []) (rev p)))"

text \<open>
  JavaScript numbers are IEEE 754 doubles. A finite double is held as the rational it
  denotes; \<open>to_double\<close> rounds a rational to the nearest double, ties to the even
  significand, and to an infinity beyond the largest one. Every double is an integer
  multiple of \<open>2^-1074\<close>, so the rounding is done on that scale: a value below
  \<open>2^53\<close> units is rounded to a whole number of units, a larger one to 53
  significant bits. The sign of zero is not kept: the scheduler only subtracts and
  compares, which do not tell \<open>-0\<close> from \<open>0\<close>.
\<close>

datatype number = Finite rat | NaN | PosInf | NegInf

function bit_length :: "int \<Rightarrow> nat" where
  "bit_length n = (if n \<le> 0 then 0 else Suc (bit_length (n div 2)))"
  by pat_completeness auto
termination
  by (relation "measure nat") auto

declare bit_length.simps [simp del]

text \<open>The nearest integer, the even one of two equally near.\<close>

definition round_even :: "rat \<Rightarrow> int" where
  "round_even x =
     (let f = \<lfloor>x\<rfloor>; d = x - of_int f
      in if d < 1 / 2 then f else if 1 / 2 < d then f + 1 else if even f then f else f + 1)"

definition to_double :: "rat \<Rightarrow> number" where
  "to_double x =
     (let k = \<bar>x\<bar> * 2 ^ 1074;
          u = 2 ^ (bit_length \<lfloor>k\<rfloor> - 53);
          r = of_int (round_even (k / u)) * u
      in if 2 ^ 2098 \<le> r then (if x < 0 then NegInf else PosInf)
         else Finite (sgn x * r / 2 ^ 1074))"

text \<open>A whole number of milliseconds as a JavaScript number: \<open>Date.now()\<close>, the delay
  and TTL arguments.\<close>

definition num :: "int \<Rightarrow> number" where
  "num i = to_double (of_int i)"

text \<open>\<open>x - y\<close>: the exact difference, rounded.\<close>

fun num_sub :: "number \<Rightarrow> number \<Rightarrow> number" where
  "num_sub NaN y = NaN"
| "num_sub x NaN = NaN"
| "num_sub (Finite a) (Finite b) = to_double (a - b)"
| "num_sub (Finite a) PosInf = NegInf"
| "num_sub (Finite a) NegInf = PosInf"
| "num_sub PosInf PosInf = NaN"
| "num_sub PosInf y = PosInf"
| "num_sub NegInf NegInf = NaN"
| "num_sub NegInf y = NegInf"

text \<open>\<open>x <= y\<close>: false as soon as one side is \<open>NaN\<close>.\<close>

fun num_le :: "number \<Rightarrow> number \<Rightarrow> bool" where
  "num_le NaN y = False"
| "num_le x NaN = False"
| "num_le NegInf y = True"
| "num_le x PosInf = True"
| "num_le PosInf y = False"
| "num_le (Finite a) NegInf = False"
| "num_le (Finite a) (Finite b) = (a \<le> b)"

text \<open>\<open>x <= 0\<close>.\<close>

definition num_le0 :: "number \<Rightarrow> bool" where
  "num_le0 x = num_le x (Finite 0)"

text \<open>\<open>Number.isFinite(ts) ? ts : 0\<close>.\<close>

fun finite_or_0 :: "number \<Rightarrow> number" where
  "finite_or_0 (Finite a) = Finite a"
| "finite_or_0 x = Finite 0"

text \<open>
  Text is held as the bytes of the file; \<open>readFileSync(p, 'utf-8')\<close> decodes them.
  \<open>white_space\<close> lists the UTF-8 encodings of the code points that \<open>trim()\<close> and
  \<open>parseInt\<close> skip: the ECMAScript WhiteSpace and LineTerminator productions, that is
  TAB, LF, VT, FF, CR, SPACE, U+00A0, U+1680, U+2000 to U+200A, U+2028, U+2029, U+202F,
  U+205F, U+3000 and U+FEFF. Each encoding starts with a byte that cannot occur inside
  another character, so finding one at either end of the bytes is finding the code point
  at that end of the decoded string.
\<close>

definition white_space :: "string list" where
  "white_space =
     [[CHR 0x09], [CHR 0x0A], [CHR 0x0B], [CHR 0x0C], [CHR 0x0D], [CHR 0x20],
      [CHR 0xC2, CHR 0xA0], [CHR 0xE1, CHR 0x9A, CHR 0x80],
      [CHR 0xE2, CHR 0x80, CHR 0x80], [CHR 0xE2, CHR 0x80, CHR 0x81],
      [CHR 0xE2, CHR 0x80, CHR 0x82], [CHR 0xE2, CHR 0x80, CHR 0x83],
      [CHR 0xE2, CHR 0x80, CHR 0x84], [CHR 0xE2, CHR 0x80, CHR 0x85],
      [CHR 0xE2, CHR 0x80, CHR 0x86], [CHR 0xE2, CHR 0x80, CHR 0x87],
      [CHR 0xE2, CHR 0x80, CHR 0x88], [CHR 0xE2, CHR 0x80, CHR 0x89],
      [CHR 0xE2, CHR 0x80, CHR 0x8A], [CHR 0xE2, CHR 0x80, CHR 0xA8],
      [CHR 0xE2, CHR 0x80, CHR 0xA9], [CHR 0xE2, CHR 0x80, CHR 0xAF],
      [CHR 0xE2, CHR 0x81, CHR 0x9F], [CHR 0xE3, CHR 0x80, CHR 0x80],
      [CHR 0xEF, CHR 0xBB, CHR 0xBF]]"

definition startsWith :: "string \<Rightarrow> string \<Rightarrow> bool" where
  "startsWith s pre = (take (length pre) s = pre)"

text \<open>The white space at the start of a text, and at its end, removed.\<close>

function trimStart :: "string \<Rightarrow> string" where
  "trimStart s =
     (case find (startsWith s) white_space of
        None \<Rightarrow> s
      | Some w \<Rightarrow> trimStart (drop (length w) s))"
  by pat_completeness auto
termination
proof (relation "measure length")
  fix s w
  assume "find (startsWith s) white_space = Some w"
  then have "w \<in> set white_space" and "startsWith s w"
    by (auto simp: find_Some_iff)
  then have "w \<noteq> []" and "s \<noteq> []"
    by (auto simp: white_space_def startsWith_def)
  then show "(drop (length w) s, s) \<in> measure length"
    by simp
qed simp

function trimEnd :: "string \<Rightarrow> string" where
  "trimEnd s =
     (case find (endsWith s) white_space of
        None \<Rightarrow> s
      | Some w \<Rightarrow> trimEnd (take (length s - length w) s))"
  by pat_completeness auto
termination
proof (relation "measure length")
  fix s w
  assume "find (endsWith s) white_space = Some w"
  then have "w \<in> set white_space" and "endsWith s w"
    by (auto simp: find_Some_iff)
  then have "w \<noteq> []" and "s \<noteq> []"
    by (auto simp: white_space_def endsWith_def)
  then show "(take (length s - length w) s, s) \<in> measure length"
    by simp
qed simp

declare trimStart.simps [simp del]
declare trimEnd.simps [simp del]

text \<open>\<open>String.prototype.trim\<close>.\<close>

definition trim :: "string \<Rightarrow> string" where
  "trim s = trimEnd (trimStart s)"

definition digits10 :: string where
  "digits10 = ''0123456789''"

definition isDigit :: "char \<Rightarrow> bool" where
  "isDigit c = (c \<in> set digits10)"

definition digitVal :: "char \<Rightarrow> nat" where
  "digitVal c = length (takeWhile (\<lambda>d. d \<noteq> c) digits10)"

definition digitsVal :: "string \<Rightarrow> nat" where
  "digitsVal ds = foldl (\<lambda>a c. 10 * a + digitVal c) 0 ds"

text \<open>
  \<open>parseInt(text, 10)\<close>: leading white space, an optional sign, then the longest run
  of decimal digits; \<open>NaN\<close> when that run is empty, otherwise the double nearest to
  the signed value of the run, an infinity when the run is too long for a double.
  (ECMAScript lets an implementation replace the digits after the twentieth by zeros
  before rounding; V8 rounds the exact value, as here.)
\<close>

definition parseInt :: "string \<Rightarrow> number" where
  "parseInt s =
     (let t = trimStart s;
          neg = (t \<noteq> [] \<and> hd t = CHR ''-'');
          u = (if t \<noteq> [] \<and> (hd t = CHR ''-'' \<or> hd t = CHR ''+'') then tl t else t);
          ds = takeWhile isDigit u
      in if ds = [] then NaN
         else to_double (of_int (if neg then - int (digitsVal ds) else int (digitsVal ds))))"

function showNat :: "nat \<Rightarrow> string" where
  "showNat n = (if n < 10 then [digits10 ! n] else showNat (n div 10) @ [digits10 ! (n mod 10)])"
  by pat_completeness auto
termination
  by (relation "measure id") auto

declare showNat.simps [simp del]

text \<open>\<open>Date.now().toString()\<close>: a time value is a whole number of milliseconds of
  magnitude at most \<open>8.64 * 10^15\<close>, which a double holds exactly and prints as plain
  decimal digits.\<close>

definition toString :: "int \<Rightarrow> string" where
  "toString n = (if n < 0 then CHR ''-'' # showNat (nat (- n)) else showNat (nat n))"

section \<open>The file system and the timer runtime\<close>

text \<open>
  The tree holds regular files (text, \<open>mtimeMs\<close>, \<open>ctimeMs\<close>) and directories, stored
  as an association list from location to node; the order of the list is the order in
  which \<open>readdirSync\<close> reports entries. The two time stamps are in milliseconds and
  need not be whole. \<open>locked\<close> lists the locations whose removal the operating system
  refuses (a file held open, a permission denied), \<open>unwritable\<close> those at which it
  refuses to open a file for writing (a permission denied, a read-only file system), and
  \<open>short_writes\<close> those at which a write fails after the file has been opened and
  emptied (a full disk), with the number of bytes that still reach the file.
  \<open>timers\<close> is the module's \<open>Map\<close> from path to timeout handle, \<open>pending\<close> the
  timeouts the runtime still holds, \<open>clock\<close> what \<open>Date.now()\<close> reads.
\<close>

datatype node = File (content: string) (mtimeMs: rat) (ctimeMs: rat) | Dir

datatype errno = ENOENT | ENOTDIR | EISDIR | EPERM | EACCES | ENOSPC | ENAMETOOLONG

datatype dirent = Dirent (name: string) (isDirectory: bool) (isFile: bool)

record timeout =
  handle :: nat
  target :: path
  delayMs :: number

record state =
  files :: "(path \<times> node) list"
  locked :: "path list"
  unwritable :: "path list"
  short_writes :: "(path \<times> nat) list"
  timers :: "path \<rightharpoonup> nat"
  pending :: "timeout list"
  nextHandle :: nat
  clock :: int

text \<open>A call either returns or throws; either way it leaves a state behind.\<close>

datatype outcome = Returned state | Threw errno state

definition andThen :: "outcome \<Rightarrow> (state \<Rightarrow> outcome) \<Rightarrow> outcome" where
  "andThen r f = (case r of Returned s \<Rightarrow> f s | Threw e s \<Rightarrow> Threw e s)"

text \<open>\<open>try { ... } catch (err) { logger.warn(...) }\<close>: the error is logged and dropped.\<close>

definition caught :: "outcome \<Rightarrow> state" where
  "caught r = (case r of Returned s \<Rightarrow> s | Threw e s \<Rightarrow> s)"

definition stat :: "state \<Rightarrow> path \<Rightarrow> node option" where
  "stat s p =
     (case map_of (files s) (resolve p) of
        None \<Rightarrow> None
      | Some Dir \<Rightarrow> Some Dir
      | Some (File c m t) \<Rightarrow> if trailing_slash p then None else Some (File c m t))"

definition existsSync :: "state \<Rightarrow> path \<Rightarrow> bool" where
  "existsSync s p = (stat s p \<noteq> None)"

definition readFileSync :: "state \<Rightarrow> path \<Rightarrow> errno + string" where
  "readFileSync s p =
     (case stat s p of
        None \<Rightarrow> Inl ENOENT
      | Some Dir \<Rightarrow> Inl EISDIR
      | Some (File c m t) \<Rightarrow> Inr c)"

definition statSync :: "state \<Rightarrow> path \<Rightarrow> errno + node" where
  "statSync s p = (case stat s p of None \<Rightarrow> Inl ENOENT | Some n \<Rightarrow> Inr n)"

text \<open>The host refuses a path string of \<open>PATH_MAX\<close> bytes or more.\<close>

definition PATH_MAX :: nat where
  "PATH_MAX = 4096"

definition path_len :: "path \<Rightarrow> nat" where
  "path_len p = sum_list (map (\<lambda>c. Suc (length c)) p)"

definition children :: "(path \<times> node) list \<Rightarrow> path \<Rightarrow> (path \<times> node) list" where
  "children fs d = filter (\<lambda>(q, n). q \<noteq> [] \<and> butlast q = d) fs"

definition readdirSync :: "state \<Rightarrow> path \<Rightarrow> errno + dirent list" where
  "readdirSync s dir =
     (if PATH_MAX \<le> path_len dir then Inl ENAMETOOLONG
      else case stat s dir of
        None \<Rightarrow> Inl ENOENT
      | Some (File c m t) \<Rightarrow> Inl ENOTDIR
      | Some Dir \<Rightarrow>
          Inr (map (\<lambda>(q, n). Dirent (last q) (n = Dir) (n \<noteq> Dir))
                 (children (files s) (resolve dir))))"

text \<open>\<open>fs.rmSync(p, { force: true })\<close>: silent on a missing path, refuses a directory.\<close>

definition rmSync_force :: "path \<Rightarrow> state \<Rightarrow> outcome" where
  "rmSync_force p s =
     (case stat s p of
        None \<Rightarrow> Returned s
      | Some Dir \<Rightarrow> Threw EISDIR s
      | Some (File c m t) \<Rightarrow>
          if resolve p \<in> set (locked s) then Threw EPERM s
          else Returned (s\<lparr>files := AList.delete (resolve p) (files s)\<rparr>))"

definition under :: "path \<Rightarrow> path \<Rightarrow> bool" where
  "under d q = (take (length d) q = d)"

text \<open>
  \<open>fs.rmSync(p, { force: true, recursive: true })\<close>. Which entries a refused recursive
  removal has already unlinked is not fixed by Node; here it removes nothing.
\<close>

definition rmSync_rf :: "path \<Rightarrow> state \<Rightarrow> outcome" where
  "rmSync_rf p s =
     (case stat s p of
        None \<Rightarrow> Returned s
      | Some n \<Rightarrow>
          if list_ex (\<lambda>q. under (resolve p) q \<and> map_of (files s) q \<noteq> None) (locked s)
          then Threw EPERM s
          else Returned (s\<lparr>files := filter (\<lambda>(q, n). \<not> under (resolve p) q) (files s)\<rparr>))"

text \<open>A file name is at most \<open>NAME_MAX\<close> bytes long.\<close>

definition NAME_MAX :: nat where
  "NAME_MAX = 255"

text \<open>The file at a stored location is opened for writing, which empties or creates
  it, and the text is written; both time stamps become the current clock reading.\<close>

definition write_at :: "path \<Rightarrow> string \<Rightarrow> state \<Rightarrow> outcome" where
  "write_at q txt s =
     (if q \<in> set (unwritable s) then Threw EACCES s
      else case map_of (short_writes s) q of
        Some n \<Rightarrow>
          Threw ENOSPC (s\<lparr>files := AList.update q
            (File (take n txt) (of_int (clock s)) (of_int (clock s))) (files s)\<rparr>)
      | None \<Rightarrow>
          Returned (s\<lparr>files := AList.update q
            (File txt (of_int (clock s)) (of_int (clock s))) (files s)\<rparr>))"

text \<open>\<open>fs.writeFileSync(p, text, 'utf-8')\<close>: replaces a file's text, or creates the file
  in an existing directory.\<close>

definition writeFileSync :: "path \<Rightarrow> string \<Rightarrow> state \<Rightarrow> outcome" where
  "writeFileSync p txt s =
     (if trailing_slash p then Threw EISDIR s
      else if resolve p \<noteq> [] \<and> NAME_MAX < length (last (resolve p)) then Threw ENAMETOOLONG s
      else case map_of (files s) (resolve p) of
        Some Dir \<Rightarrow> Threw EISDIR s
      | Some (File c m t) \<Rightarrow> write_at (resolve p) txt s
      | None \<Rightarrow>
          if resolve p \<noteq> [] \<and> map_of (files s) (butlast (resolve p)) = Some Dir
          then write_at (resolve p) txt s
          else Threw ENOENT s)"

section \<open>deleteScheduler.ts\<close>

definition markCreated :: "path \<Rightarrow> state \<Rightarrow> state" where
  "markCreated filePath s =
     caught (writeFileSync (append_str filePath MARKER_CREATED) (toString (clock s)) s)"

definition clearTimeout :: "nat \<Rightarrow> state \<Rightarrow> state" where
  "clearTimeout h s = s\<lparr>pending := filter (\<lambda>t. handle t \<noteq> h) (pending s)\<rparr>"

definition clearScheduledDeletion :: "path \<Rightarrow> state \<Rightarrow> state" where
  "clearScheduledDeletion filePath s =
     (case timers s filePath of
        None \<Rightarrow> s
      | Some t \<Rightarrow> (clearTimeout t s)\<lparr>timers := (timers s)(filePath := None)\<rparr>)"

text \<open>\<open>setTimeout(() => safeDelete(filePath), delayMs)\<close>: a fresh handle, remembered by
  the runtime with the path its callback deletes and the delay it was given.\<close>

definition setTimeout :: "path \<Rightarrow> number \<Rightarrow> state \<Rightarrow> nat \<times> state" where
  "setTimeout filePath d s =
     (nextHandle s,
      s\<lparr>pending := pending s @ [\<lparr>handle = nextHandle s, target = filePath, delayMs = d\<rparr>],
        nextHandle := Suc (nextHandle s)\<rparr>)"

definition scheduleDeletion :: "path \<Rightarrow> number \<Rightarrow> state \<Rightarrow> state" where
  "scheduleDeletion filePath d s =
     (let s1 = clearScheduledDeletion filePath s;
          s2 = caught (writeFileSync (append_str filePath MARKER_DOWNLOADED)
                         (toString (clock s1)) s1);
          (t, s3) = setTimeout filePath d s2
      in s3\<lparr>timers := (timers s3)(filePath \<mapsto> t)\<rparr>)"

text \<open>The body of \<open>safeDelete\<close>'s \<open>try\<close> block: the first statement that throws ends it.\<close>

definition safeDelete_try :: "path \<Rightarrow> state \<Rightarrow> outcome" where
  "safeDelete_try filePath s0 =
     andThen (if existsSync s0 filePath then rmSync_force filePath s0 else Returned s0) (\<lambda>s1.
     andThen (if existsSync s1 (append_str filePath MARKER_DOWNLOADED)
              then rmSync_force (append_str filePath MARKER_DOWNLOADED) s1 else Returned s1) (\<lambda>s2.
     andThen (if existsSync s2 (append_str filePath MARKER_CREATED)
              then rmSync_force (append_str filePath MARKER_CREATED) s2 else Returned s2) (\<lambda>s3.
       if existsSync s3 (dirname filePath)
       then (case readdirSync s3 (dirname filePath) of
               Inl e \<Rightarrow> Threw e s3
             | Inr es \<Rightarrow> if length es = 0 then rmSync_rf (dirname filePath) s3 else Returned s3)
       else Returned s3)))"

text \<open>\<open>catch\<close> logs and swallows; \<open>finally\<close> drops the path's entry from the map.\<close>

definition safeDelete :: "path \<Rightarrow> state \<Rightarrow> outcome" where
  "safeDelete filePath s =
     (let s' = caught (safeDelete_try filePath s)
      in Returned (s'\<lparr>timers := (timers s')(filePath := None)\<rparr>))"

text \<open>What the runtime does when a timeout comes due: it forgets the handle and runs the
  callback.\<close>

definition fire :: "nat \<Rightarrow> state \<Rightarrow> outcome" where
  "fire h s =
     (case filter (\<lambda>t. handle t = h) (pending s) of
        [] \<Rightarrow> Returned s
      | t # ts \<Rightarrow> safeDelete (target t) (clearTimeout h s))"

subsection \<open>Hydration\<close>

text \<open>One \<open>.downloaded\<close> marker met by the walk; \<open>full\<close> is the marker's path.\<close>

definition hydrate_marker :: "int \<Rightarrow> path \<Rightarrow> state \<Rightarrow> outcome" where
  "hydrate_marker downloadDelayMs full s =
     (let original = slice_end full (length MARKER_DOWNLOADED) in
      if \<not> existsSync s original then rmSync_force full s
      else case readFileSync s full of
        Inl e \<Rightarrow> Threw e s
      | Inr txt \<Rightarrow>
          (let ts = parseInt (trim txt);
               remaining = num_sub (num downloadDelayMs) (num_sub (num (clock s)) ts)
           in if num_le0 remaining then safeDelete original s
              else Returned (scheduleDeletion original remaining s)))"

text \<open>
  \<open>walk\<close> reads a directory once and then visits the entries it read, whatever the
  visits do to the tree in between. The recursion descends one component at a time and
  \<open>readdirSync\<close> refuses a path of \<open>PATH_MAX\<close> bytes, which bounds its depth.
\<close>

function hydrate_walk :: "int \<Rightarrow> path \<Rightarrow> state \<Rightarrow> outcome"
  and hydrate_entries :: "int \<Rightarrow> path \<Rightarrow> dirent list \<Rightarrow> state \<Rightarrow> outcome" where
  "hydrate_walk d dir s =
     (case readdirSync s dir of
        Inl e \<Rightarrow> Threw e s
      | Inr es \<Rightarrow> hydrate_entries d dir es s)"
| "hydrate_entries d dir [] s = Returned s"
| "hydrate_entries d dir (e # es) s =
     (if isDirectory e then
        (case hydrate_walk d (join dir (name e)) s of
           Threw x s1 \<Rightarrow> Threw x s1
         | Returned s1 \<Rightarrow> hydrate_entries d dir es s1)
      else if isFile e \<and> endsWith (name e) MARKER_DOWNLOADED then
        (case hydrate_marker d (join dir (name e)) s of
           Threw x s1 \<Rightarrow> Threw x s1
         | Returned s1 \<Rightarrow> hydrate_entries d dir es s1)
      else hydrate_entries d dir es s)"
  by pat_completeness auto
termination
  by (relation "inv_image (less_than <*lex*> less_than)
        (\<lambda>x. case x of
           Inl (d, dir, s) \<Rightarrow> (2 * (PATH_MAX - path_len dir), 0)
         | Inr (d, dir, es, s) \<Rightarrow> (2 * (PATH_MAX - path_len dir) - 1, Suc (length es)))")
     (auto simp: readdirSync_def path_len_def join_def split: if_splits)

subsection \<open>The TTL sweep\<close>

text \<open>\<open>st.mtimeMs || st.ctimeMs || now\<close>: the first operand that is neither zero nor
  \<open>NaN\<close>, the last one if there is none.\<close>

definition truthy :: "number \<Rightarrow> bool" where
  "truthy x = (x \<noteq> Finite 0 \<and> x \<noteq> NaN)"

definition first_truthy :: "number \<Rightarrow> number \<Rightarrow> number \<Rightarrow> number" where
  "first_truthy a b c = (if truthy a then a else if truthy b then b else c)"

text \<open>The sweep's \<open>createdAt\<close> for a file, or the error thrown while finding it.
  Directories carry no time stamps here; the walk calls this for a path that resolves to
  one only if an entry's name is empty, and \<open>safeDelete\<close> cannot remove a directory
  path anyway.\<close>

definition createdAt :: "int \<Rightarrow> path \<Rightarrow> state \<Rightarrow> errno + number" where
  "createdAt now full s =
     (if existsSync s (append_str full MARKER_CREATED) then
        (case readFileSync s (append_str full MARKER_CREATED) of
           Inl e \<Rightarrow> Inl e
         | Inr txt \<Rightarrow> Inr (finite_or_0 (parseInt (trim txt))))
      else
        (case statSync s full of
           Inl e \<Rightarrow> Inl e
         | Inr Dir \<Rightarrow> Inr (num now)
         | Inr (File c m t) \<Rightarrow> Inr (first_truthy (to_double m) (to_double t) (num now))))"

text \<open>One regular file whose name is not a marker's: \<open>now - createdAt >= ttlMs\<close>
  decides.\<close>

definition purge_file :: "int \<Rightarrow> int \<Rightarrow> path \<Rightarrow> state \<Rightarrow> outcome" where
  "purge_file ttlMs now full s =
     (case createdAt now full s of
        Inl e \<Rightarrow> Threw e s
      | Inr c \<Rightarrow> if num_le (num ttlMs) (num_sub (num now) c) then safeDelete full s
                 else Returned s)"

text \<open>The clean-up after the walk of a subdirectory.\<close>

definition clean_empty_dir :: "path \<Rightarrow> state \<Rightarrow> outcome" where
  "clean_empty_dir full s =
     (if existsSync s full then
        (case readdirSync s full of
           Inl e \<Rightarrow> Threw e s
         | Inr es \<Rightarrow> if length es = 0 then rmSync_rf full s else Returned s)
      else Returned s)"

function purge_walk :: "int \<Rightarrow> int \<Rightarrow> path \<Rightarrow> state \<Rightarrow> outcome"
  and purge_entries :: "int \<Rightarrow> int \<Rightarrow> path \<Rightarrow> dirent list \<Rightarrow> state \<Rightarrow> outcome" where
  "purge_walk ttlMs now dir s =
     (case readdirSync s dir of
        Inl e \<Rightarrow> Threw e s
      | Inr es \<Rightarrow> purge_entries ttlMs now dir es s)"
| "purge_entries ttlMs now dir [] s = Returned s"
| "purge_entries ttlMs now dir (e # es) s =
     (if isDirectory e then
        (case purge_walk ttlMs now (join dir (name e)) s of
           Threw x s1 \<Rightarrow> Threw x s1
         | Returned s1 \<Rightarrow>
             (case clean_empty_dir (join dir (name e)) s1 of
                Threw x s2 \<Rightarrow> Threw x s2
              | Returned s2 \<Rightarrow> purge_entries ttlMs now dir es s2))
      else if isFile e then
        (if endsWith (name e) MARKER_CREATED \<or> endsWith (name e) MARKER_DOWNLOADED
         then purge_entries ttlMs now dir es s
         else (case purge_file ttlMs now (join dir (name e)) s of
                 Threw x s1 \<Rightarrow> Threw x s1
               | Returned s1 \<Rightarrow> purge_entries ttlMs now dir es s1))
      else purge_entries ttlMs now dir es s)"
  by pat_completeness auto
termination
  by (relation "inv_image (less_than <*lex*> less_than)
        (\<lambda>x. case x of
           Inl (t, n, dir, s) \<Rightarrow> (2 * (PATH_MAX - path_len dir), 0)
         | Inr (t, n, dir, es, s) \<Rightarrow> (2 * (PATH_MAX - path_len dir) - 1, Suc (length es)))")
     (auto simp: readdirSync_def path_len_def join_def split: if_splits)

text \<open>\<open>purgeOlderThan\<close> reads the clock once, before the walk.\<close>

definition purgeOlderThan :: "path \<Rightarrow> int \<Rightarrow> state \<Rightarrow> outcome" where
  "purgeOlderThan outputsRoot ttlMs s =
     (if \<not> existsSync s outputsRoot then Returned s
      else purge_walk ttlMs (clock s) outputsRoot s)"

definition hydrateFromDisk :: "path \<Rightarrow> int \<Rightarrow> int \<Rightarrow> state \<Rightarrow> outcome" where
  "hydrateFromDisk outputsRoot downloadDelayMs ttlMs s =
     (if \<not> existsSync s outputsRoot then Returned s
      else case hydrate_walk downloadDelayMs outputsRoot s of
        Threw x s1 \<Rightarrow> Threw x s1
      | Returned s1 \<Rightarrow> purgeOlderThan outputsRoot ttlMs s1)"

section \<open>workspace.ts\<close>

text \<open>\<open>fs.mkdirSync(dir, { recursive: true })\<close>: every missing directory on the way down
  is created; a regular file in the way is an error.\<close>

definition mkdir_step :: "outcome \<Rightarrow> path \<Rightarrow> outcome" where
  "mkdir_step r q =
     andThen r (\<lambda>s. case map_of (files s) q of
        None \<Rightarrow> Returned (s\<lparr>files := files s @ [(q, Dir)]\<rparr>)
      | Some Dir \<Rightarrow> Returned s
      | Some (File c m t) \<Rightarrow> Threw ENOTDIR s)"

text \<open>The directories on the way down to a location, nearest the root first.\<close>

fun dirs_down :: "path \<Rightarrow> path \<Rightarrow> path list" where
  "dirs_down up [] = []"
| "dirs_down up (c # cs) = (up @ [c]) # dirs_down (up @ [c]) cs"

definition mkdirSync_recursive :: "path \<Rightarrow> state \<Rightarrow> outcome" where
  "mkdirSync_recursive p s = foldl mkdir_step (Returned s) (dirs_down [] (resolve p))"

definition cleanupDir :: "path \<Rightarrow> state \<Rightarrow> outcome" where
  "cleanupDir dir s = (if \<not> existsSync s dir then Returned s else rmSync_rf dir s)"

text \<open>The middleware up to \<open>next()\<close>, for the request id \<open>uuidv4()\<close> returned.\<close>

definition withTempWorkspace :: "path \<Rightarrow> path \<Rightarrow> string \<Rightarrow> state \<Rightarrow> outcome" where
  "withTempWorkspace baseUploads baseOutputs requestId s =
     andThen (if \<not> existsSync s (join baseUploads requestId)
              then mkdirSync_recursive (join baseUploads requestId) s else Returned s) (\<lambda>s1.
       if \<not> existsSync s1 (join baseOutputs requestId)
       then mkdirSync_recursive (join baseOutputs requestId) s1 else Returned s1)"

text \<open>The callback registered with \<open>res.on('finish', ...)\<close>; its \<open>catch\<close> logs and
  swallows.\<close>

definition on_finish :: "path \<Rightarrow> path \<Rightarrow> string \<Rightarrow> state \<Rightarrow> outcome" where
  "on_finish baseUploads baseOutputs requestId s =
     Returned (caught (cleanupDir (join baseUploads requestId) s))"

section \<open>Predicates and scenarios used by the statements\<close>

text \<open>
  The runtime's timeouts and the module's map agree: handles are distinct and already
  issued, and every pending timeout is the one the map records for the path it deletes.
  This holds when the module is loaded and is kept by \<open>scheduleDeletion\<close>,
  \<open>clearScheduledDeletion\<close> and a timeout coming due. A direct call of
  \<open>safeDelete\<close> for a path with a pending timeout breaks it: the map forgets the
  handle and the runtime keeps the timeout.
\<close>

definition timers_consistent :: "state \<Rightarrow> bool" where
  "timers_consistent s =
     (distinct (map handle (pending s)) \<and>
      list_all (\<lambda>t. handle t < nextHandle s \<and> timers s (target t) = Some (handle t)) (pending s))"

text \<open>\<open>scheduleDeletion(filePath, d)\<close> called once for each delay in the list, in order.\<close>

definition arm_all :: "path \<Rightarrow> number list \<Rightarrow> state \<Rightarrow> state" where
  "arm_all filePath ds s = foldl (\<lambda>s d. scheduleDeletion filePath d s) s ds"

text \<open>The pending timeouts whose callback deletes \<open>filePath\<close>.\<close>

definition timeouts_for :: "path \<Rightarrow> state \<Rightarrow> timeout list" where
  "timeouts_for filePath s = filter (\<lambda>t. target t = filePath) (pending s)"

definition st0 :: state where
  "st0 = \<lparr>files = [([''out''], Dir), ([''out'', ''a.pdf''], File ''x'' 1 1)], locked = [], unwritable = [], short_writes = [],
     timers = Map.empty, pending = [], nextHandle = 0, clock = 50\<rparr>"

text \<open>A state reached by removals only.\<close>

definition shrunk :: "state \<Rightarrow> state \<Rightarrow> bool" where
  "shrunk s s' = (\<forall>q. map_of (files s') q = None \<or> map_of (files s') q = map_of (files s) q)"

text \<open>The stored locations \<open>safeDelete\<close> unlinks when nothing is refused: the artifact
  and its two markers, as far as they exist.\<close>

definition removed_by_safeDelete :: "path \<Rightarrow> state \<Rightarrow> path list" where
  "removed_by_safeDelete filePath s =
     map resolve (filter (existsSync s)
       [filePath, append_str filePath MARKER_DOWNLOADED, append_str filePath MARKER_CREATED])"

text \<open>A tree without the listed locations, and without everything at or below one.\<close>

definition without :: "path list \<Rightarrow> (path \<times> node) list \<Rightarrow> (path \<times> node) list" where
  "without gone fs = filter (\<lambda>(q, n). q \<notin> set gone) fs"

definition prune :: "path \<Rightarrow> (path \<times> node) list \<Rightarrow> (path \<times> node) list" where
  "prune d fs = filter (\<lambda>(q, n). \<not> under d q) fs"

definition is_directory :: "state \<Rightarrow> path \<Rightarrow> bool" where
  "is_directory s p = (stat s p = Some Dir)"

definition is_regular :: "state \<Rightarrow> path \<Rightarrow> bool" where
  "is_regular s p = (case stat s p of Some (File c m t) \<Rightarrow> True | _ \<Rightarrow> False)"




text \<open>
  Scenarios. \<open>s_alone\<close>: \<open>outputs/R1\<close> holds \<open>a.pdf\<close> and its markers only;
  \<open>s_pair\<close>: a second artifact \<open>b.pdf\<close> beside it; \<open>s_locked\<close>: the
  artifact is held open, so its removal is refused, and a timer is pending for it.
\<close>

definition s_alone :: state where
  "s_alone = \<lparr>files = [([''outputs''], Dir), ([''outputs'', ''R1''], Dir),
       ([''outputs'', ''R1'', ''a.pdf''], File ''%PDF'' 5 5),
       ([''outputs'', ''R1'', ''a.pdf.created''], File ''5'' 5 5),
       ([''outputs'', ''R1'', ''a.pdf.downloaded''], File ''100'' 100 100)],
     locked = [], unwritable = [], short_writes = [], timers = Map.empty, pending = [], nextHandle = 0, clock = 1000000\<rparr>"

definition s_pair :: state where
  "s_pair = s_alone\<lparr>files := files s_alone @ [([''outputs'', ''R1'', ''b.pdf''], File ''%PDF'' 7 7)]\<rparr>"

definition s_locked :: state where
  "s_locked = \<lparr>files = [([''out''], Dir), ([''out'', ''R1''], Dir),
                   ([''out'', ''R1'', ''a.pdf''], File ''data'' 5 5),
                   ([''out'', ''R1'', ''a.pdf.created''], File ''5'' 5 5),
                   ([''out'', ''R1'', ''a.pdf.downloaded''], File ''100'' 100 100)],
          locked = [[''out'', ''R1'', ''a.pdf'']], unwritable = [], short_writes = [], timers = Map.empty([''out'', ''R1'', ''a.pdf''] \<mapsto> 0),
          pending = [\<lparr>handle = 0, target = [''out'', ''R1'', ''a.pdf''], delayMs = Finite 600000\<rparr>],
          nextHandle = 1, clock = 1000000\<rparr>"

text \<open>The artifact a \<open>.downloaded\<close> marker belongs to, and the grace time hydration
  computes from the marker's text (lines 98, 103 and 104).\<close>

definition artifact_of :: "path \<Rightarrow> path" where
  "artifact_of full = slice_end full (length MARKER_DOWNLOADED)"

definition remaining_ms :: "int \<Rightarrow> int \<Rightarrow> string \<Rightarrow> number" where
  "remaining_ms downloadDelayMs now txt =
     num_sub (num downloadDelayMs) (num_sub (num now) (parseInt (trim txt)))"








text \<open>\<open>s_orphan\<close>: a \<open>.downloaded\<close> marker whose artifact is gone, beside a fresh
  artifact \<open>b.pdf\<close>.\<close>

definition s_orphan :: state where
  "s_orphan = \<lparr>files = [([''outputs''], Dir), ([''outputs'', ''R1''], Dir),
       ([''outputs'', ''R1'', ''a.pdf.downloaded''], File ''1699999100000'' 1699999100000 1699999100000),
       ([''outputs'', ''R1'', ''b.pdf''], File ''%PDF'' 1699999990000 1699999990000)],
     locked = [], unwritable = [], short_writes = [], timers = Map.empty, pending = [], nextHandle = 0, clock = 1700000000000\<rparr>"

text \<open>
  \<open>s_orphan_locked\<close>: the same tree with the removal of the orphaned marker refused.
  \<open>s_held\<close>: an artifact created more than a day ago that another process holds
  open, so that its removal is refused. \<open>s_unmarked\<close>: an artifact without markers
  whose time stamps, half a millisecond past a whole one, are more than a day old.
  \<open>s_padded\<close>: as \<open>s_expired\<close>, with a no-break space (U+00A0) before the
  marker's digits and a line feed after them. \<open>s_readonly\<close>: as \<open>s_recent\<close>,
  with writes to the marker refused; \<open>s_full\<close>: as \<open>s_recent\<close>, on a full
  disk, where a write to the marker empties it and fails.
\<close>

definition s_orphan_locked :: state where
  "s_orphan_locked = s_orphan\<lparr>locked := [[''outputs'', ''R1'', ''a.pdf.downloaded'']]\<rparr>"

definition s_held :: state where
  "s_held = \<lparr>files = [([''outputs''], Dir), ([''outputs'', ''R1''], Dir),
       ([''outputs'', ''R1'', ''a.pdf''], File ''%PDF'' 1699900000000 1699900000000),
       ([''outputs'', ''R1'', ''a.pdf.created''], File ''1699900000000'' 1699900000000 1699900000000)],
     locked = [[''outputs'', ''R1'', ''a.pdf'']], unwritable = [], short_writes = [], timers = Map.empty,
     pending = [], nextHandle = 0, clock = 1700000000000\<rparr>"





text \<open>\<open>s_request\<close>: request \<open>R1\<close> has an upload and a finished artifact.\<close>

definition s_request :: state where
  "s_request = \<lparr>files = [([''uploads''], Dir), ([''outputs''], Dir),
       ([''uploads'', ''R1''], Dir), ([''outputs'', ''R1''], Dir),
       ([''uploads'', ''R1'', ''in.pdf''], File ''%PDF-in'' 1699999990000 1699999990000),
       ([''outputs'', ''R1'', ''a.pdf''], File ''%PDF'' 1699999995000 1699999995000),
       ([''outputs'', ''R1'', ''a.pdf.created''], File ''1699999995000'' 1699999995000 1699999995000)],
     locked = [], unwritable = [], short_writes = [], timers = Map.empty, pending = [], nextHandle = 0, clock = 1700000000000\<rparr>"

text \<open>The second tree is the first one followed by new directories.\<close>

definition only_dirs_added :: "state \<Rightarrow> state \<Rightarrow> bool" where
  "only_dirs_added s s' =
     (take (length (files s)) (files s') = files s
      \<and> list_all (\<lambda>(q, n). n = Dir) (drop (length (files s)) (files s')))"

text \<open>The entries at or below a location, in the order \<open>readdirSync\<close> meets them.\<close>

definition subtree :: "path \<Rightarrow> state \<Rightarrow> (path \<times> node) list" where
  "subtree d s = filter (\<lambda>(q, n). under d q) (files s)"

text \<open>
  A stored location whose name is an artifact name followed by \<open>.created\<close>, and a
  state in which node \<open>n\<close> is stored there as a stray marker: a regular file whose
  ancestors are all directories and whose artifact does not exist. It is \<open>unmarked\<close>
  when no \<open>.downloaded\<close> marker names it.
\<close>

definition created_marker_path :: "path \<Rightarrow> bool" where
  "created_marker_path q =
     (q \<noteq> [] \<and> [] \<notin> set q \<and> endsWith (last q) MARKER_CREATED
      \<and> length MARKER_CREATED < length (last q))"

definition orphan_at :: "node \<Rightarrow> path \<Rightarrow> state \<Rightarrow> bool" where
  "orphan_at n q s =
     (created_marker_path q \<and> n \<noteq> Dir \<and> map_of (files s) q = Some n
      \<and> list_all (\<lambda>k. map_of (files s) (take k q) = Some Dir) [1..<length q]
      \<and> stat s (slice_end q (length MARKER_CREATED)) = None)"


text \<open>
  From the first state to the second, nothing at or above location \<open>q\<close> has changed
  and nothing that was missing has appeared.
\<close>

definition keeps :: "path \<Rightarrow> state \<Rightarrow> state \<Rightarrow> bool" where
  "keeps q s s' =
     ((\<forall>k. k \<noteq> [] \<and> under k q \<longrightarrow> map_of (files s') k = map_of (files s) k)
      \<and> (\<forall>p. stat s p = None \<longrightarrow> stat s' p = None))"






section \<open>Numbers that a double holds exactly\<close>

lemma bit_length_0 [simp]: "n \<le> 0 \<Longrightarrow> bit_length n = 0"
  by (subst bit_length.simps) simp

lemma bit_length_pos: "0 < n \<Longrightarrow> bit_length n = Suc (bit_length (n div 2))"
  by (subst bit_length.simps) simp

lemma bit_length_le: "n < 2 ^ b \<Longrightarrow> bit_length n \<le> b"
proof (induction b arbitrary: n)
  case 0
  then show ?case by simp
next
  case (Suc b)
  show ?case
  proof (cases "0 < n")
    case True
    from Suc.prems have "n div 2 < 2 ^ b" by simp
    then have "bit_length (n div 2) \<le> b" by (rule Suc.IH)
    with True show ?thesis by (simp add: bit_length_pos)
  qed simp
qed

lemma bit_length_shift: "0 < n \<Longrightarrow> bit_length (n * 2 ^ e) = bit_length n + e"
proof (induction e)
  case 0
  then show ?case by simp
next
  case (Suc e)
  then have "0 < n * 2 ^ Suc e" by simp
  then have "bit_length (n * 2 ^ Suc e) = Suc (bit_length (n * 2 ^ Suc e div 2))"
    by (rule bit_length_pos)
  also have "n * 2 ^ Suc e div 2 = n * 2 ^ e" by simp
  finally show ?case using Suc by simp
qed

lemma bit_length_1 [simp]: "bit_length 1 = 1"
  by (simp add: bit_length_pos)

lemma ulp_dvd:
  assumes j: "0 < j" "j \<le> 2 ^ 53"
  shows "(2::int) ^ (bit_length (j * 2 ^ e) - 53) dvd j * 2 ^ e"
proof (cases "j = 2 ^ 53")
  case True
  have "bit_length (j * 2 ^ e) = bit_length 1 + (53 + e)"
    unfolding True using bit_length_shift[of 1 "53 + e"] by (simp add: power_add)
  then have "bit_length (j * 2 ^ e) - 53 \<le> 53 + e" by simp
  then have "(2::int) ^ (bit_length (j * 2 ^ e) - 53) dvd 2 ^ (53 + e)"
    by (rule le_imp_power_dvd)
  then show ?thesis unfolding True by (simp add: power_add)
next
  case False
  with j have "j < 2 ^ 53" by simp
  then have "bit_length j \<le> 53" by (rule bit_length_le)
  then have "bit_length (j * 2 ^ e) - 53 \<le> e" using j by (simp add: bit_length_shift)
  then have "(2::int) ^ (bit_length (j * 2 ^ e) - 53) dvd 2 ^ e"
    by (rule le_imp_power_dvd)
  then show ?thesis by simp
qed

lemma round_even_int [simp]: "round_even (of_int q) = q"
  by (simp add: round_even_def)

text \<open>A multiple of \<open>2^-c\<close> of at most \<open>2^53\<close> such units is a double.\<close>

lemma to_double_exact:
  assumes x: "x * 2 ^ c = of_int j" and b: "\<bar>j\<bar> \<le> 2 ^ 53" and c: "c \<le> 1074"
  shows "to_double x = Finite x"
proof (cases "x = 0")
  case True
  then show ?thesis by (simp add: to_double_def round_even_def)
next
  case False
  define K where "K = \<bar>j\<bar> * 2 ^ (1074 - c)"
  define P where "P = (2::rat) ^ 1074"
  define Q where "Q = (2::rat) ^ 2098"
  have P0: "P \<noteq> 0" unfolding P_def by (rule power_not_zero) simp
  have j0: "0 < \<bar>j\<bar>" using False x by auto
  have "\<bar>x\<bar> * 2 ^ c = of_int \<bar>j\<bar>"
    using x by (metis abs_mult abs_numeral abs_power2 of_int_abs power_abs)
  then have "\<bar>x\<bar> * 2 ^ c * 2 ^ (1074 - c) = of_int \<bar>j\<bar> * 2 ^ (1074 - c)" by simp
  moreover have "(2::rat) ^ c * 2 ^ (1074 - c) = P"
    unfolding P_def using c by (simp only: flip: power_add) simp
  ultimately have k: "\<bar>x\<bar> * P = of_int K"
    by (simp add: K_def mult.assoc)
  obtain q where q: "K = 2 ^ (bit_length K - 53) * q"
    using ulp_dvd[OF j0 b, of "1074 - c"] unfolding K_def by (auto elim: dvdE)
  have u: "(of_int K :: rat) / 2 ^ (bit_length K - 53) = of_int q"
    by (subst q) simp
  have r: "(of_int q :: rat) * 2 ^ (bit_length K - 53) = of_int K"
    by (subst (2) q) simp
  have "K \<le> 2 ^ 53 * 2 ^ (1074 - c)" unfolding K_def using b by simp
  also have "\<dots> = 2 ^ (53 + (1074 - c))" by (simp only: power_add)
  also have "\<dots> < 2 ^ 2098" by (rule power_strict_increasing) simp_all
  finally have "(of_int K :: rat) < of_int (2 ^ 2098)" by (simp only: of_int_less_iff)
  also have "(of_int (2 ^ 2098) :: rat) = Q" unfolding Q_def by (simp only: of_int_power of_int_numeral)
  finally have small: "\<not> (Q \<le> of_int K)" by simp
  have "sgn x * of_int K / P = sgn x * (\<bar>x\<bar> * P) / P" by (simp only: k)
  also have "\<dots> = sgn x * \<bar>x\<bar>" using P0 by simp
  also have "\<dots> = x" by (simp add: sgn_mult_abs)
  finally have fin: "sgn x * of_int K / P = x" .
  have "to_double x = (if Q \<le> of_int K then (if x < 0 then NegInf else PosInf)
                       else Finite (sgn x * of_int K / P))"
    unfolding to_double_def Let_def P_def[symmetric] Q_def[symmetric]
    by (simp only: k floor_of_int u round_even_int r)
  then show ?thesis by (simp only: small if_False fin)
qed

lemma num_exact: "\<bar>i\<bar> \<le> 2 ^ 53 \<Longrightarrow> num i = Finite (of_int i)"
  unfolding num_def by (rule to_double_exact[where c = 0 and j = i]) simp_all

lemma to_double_numeral:
  "numeral w \<le> (2::int) ^ 53 \<Longrightarrow> to_double (numeral w) = Finite (numeral w)"
  using to_double_exact[of "numeral w" 0 "numeral w"] by simp

lemma to_double_neg_numeral:
  "numeral w \<le> (2::int) ^ 53 \<Longrightarrow> to_double (- numeral w) = Finite (- numeral w)"
  using to_double_exact[of "- numeral w" 0 "- numeral w"] by simp

lemma to_double_0 [simp]: "to_double 0 = Finite 0"
  using to_double_exact[of 0 0 0] by simp

lemma to_double_1 [simp]: "to_double 1 = Finite 1"
  using to_double_exact[of 1 0 1] by simp

lemma to_double_half:
  "numeral w \<le> (2::int) ^ 53 \<Longrightarrow> to_double (numeral w / 2) = Finite (numeral w / 2)"
  using to_double_exact[of "numeral w / 2" 1 "numeral w"] by simp

lemmas num_eval = num_exact to_double_numeral to_double_neg_numeral to_double_half
  num_le0_def truthy_def

section \<open>The timer map\<close>

lemma writeFileSync_frame:
  "pending (caught (writeFileSync p txt s)) = pending s"
  "timers (caught (writeFileSync p txt s)) = timers s"
  "nextHandle (caught (writeFileSync p txt s)) = nextHandle s"
  "clock (caught (writeFileSync p txt s)) = clock s"
  "locked (caught (writeFileSync p txt s)) = locked s"
  "unwritable (caught (writeFileSync p txt s)) = unwritable s"
  "short_writes (caught (writeFileSync p txt s)) = short_writes s"
  by (auto simp: writeFileSync_def write_at_def caught_def split: option.splits node.splits)

lemma consistent_unique:
  assumes "timers_consistent s"
  shows "length (timeouts_for q s) \<le> 1"
proof -
  have d: "distinct (map handle (pending s))"
    and r: "\<forall>t\<in>set (pending s). timers s (target t) = Some (handle t)"
    using assms by (auto simp: timers_consistent_def list_all_iff)
  have e: "\<forall>t\<in>set (timeouts_for q s). \<forall>u\<in>set (timeouts_for q s). handle t = handle u"
  proof (intro ballI)
    fix t u assume "t \<in> set (timeouts_for q s)" "u \<in> set (timeouts_for q s)"
    then have "timers s q = Some (handle t)" "timers s q = Some (handle u)"
      using r by (auto simp: timeouts_for_def)
    then show "handle t = handle u" by simp
  qed
  have "distinct (map handle (timeouts_for q s))"
    using d by (simp add: timeouts_for_def distinct_map_filter)
  with e show ?thesis
  proof (cases "timeouts_for q s")
    case Nil
    then show ?thesis by simp
  next
    case (Cons x xs)
    note c1 = Cons
    show ?thesis
    proof (cases xs)
      case Nil
      then show ?thesis using c1 by simp
    next
      case (Cons y ys)
      have "x \<in> set (timeouts_for q s)" "y \<in> set (timeouts_for q s)"
        by (simp_all add: c1 Cons)
      then have "handle x = handle y" by (rule e[rule_format])
      moreover have "handle x \<noteq> handle y"
        using \<open>distinct (map handle (timeouts_for q s))\<close> c1 Cons by simp
      ultimately show ?thesis by simp
    qed
  qed
qed

lemma clear_consistent:
  assumes "timers_consistent s"
  shows "timers_consistent (clearScheduledDeletion p s)"
    and "timeouts_for p (clearScheduledDeletion p s) = []"
    and "timers (clearScheduledDeletion p s) p = None"
    and "nextHandle (clearScheduledDeletion p s) = nextHandle s"
proof -
  have r: "\<forall>t\<in>set (pending s). handle t < nextHandle s \<and> timers s (target t) = Some (handle t)"
    and d: "distinct (map handle (pending s))"
    using assms by (auto simp: timers_consistent_def list_all_iff)
  show "timers_consistent (clearScheduledDeletion p s)"
    using r d
    by (auto simp: timers_consistent_def list_all_iff clearScheduledDeletion_def
        clearTimeout_def distinct_map_filter split: option.splits)
  show "timeouts_for p (clearScheduledDeletion p s) = []"
    using r
    by (auto simp: timeouts_for_def filter_empty_conv clearScheduledDeletion_def
        clearTimeout_def split: option.splits)
  show "timers (clearScheduledDeletion p s) p = None"
    by (auto simp: clearScheduledDeletion_def clearTimeout_def split: option.splits)
  show "nextHandle (clearScheduledDeletion p s) = nextHandle s"
    by (auto simp: clearScheduledDeletion_def clearTimeout_def split: option.splits)
qed

lemma scheduleDeletion_unfold:
  "scheduleDeletion p d s =
     (let s2 = caught (writeFileSync (append_str p MARKER_DOWNLOADED)
                  (toString (clock (clearScheduledDeletion p s))) (clearScheduledDeletion p s))
      in s2\<lparr>pending := pending s2 @ [\<lparr>handle = nextHandle s2, target = p, delayMs = d\<rparr>],
            nextHandle := Suc (nextHandle s2),
            timers := (timers s2)(p \<mapsto> nextHandle s2)\<rparr>)"
  by (simp add: scheduleDeletion_def setTimeout_def Let_def)

lemma schedule_step:
  assumes "timers_consistent s"
  shows "timers_consistent (scheduleDeletion p d s)"
    and "timeouts_for p (scheduleDeletion p d s) = [\<lparr>handle = nextHandle s, target = p, delayMs = d\<rparr>]"
    and "timers (scheduleDeletion p d s) p = Some (nextHandle s)"
proof -
  let ?c = "clearScheduledDeletion p s"
  note c = clear_consistent[OF assms, of p]
  have r: "\<forall>t\<in>set (pending ?c). handle t < nextHandle ?c \<and> timers ?c (target t) = Some (handle t)"
    and d: "distinct (map handle (pending ?c))"
    using c(1) by (auto simp: timers_consistent_def list_all_iff)
  have np: "\<forall>t\<in>set (pending ?c). target t \<noteq> p"
    using c(2) by (auto simp: timeouts_for_def filter_empty_conv)
  show "timers_consistent (scheduleDeletion p d s)"
    using r d np
    by (auto simp: scheduleDeletion_unfold Let_def writeFileSync_frame timers_consistent_def
        list_all_iff less_Suc_eq)
  show "timeouts_for p (scheduleDeletion p d s) = [\<lparr>handle = nextHandle s, target = p, delayMs = d\<rparr>]"
    using np c(4)
    by (simp add: scheduleDeletion_unfold Let_def writeFileSync_frame timeouts_for_def filter_empty_conv)
  show "timers (scheduleDeletion p d s) p = Some (nextHandle s)"
    using c(4) by (simp add: scheduleDeletion_unfold Let_def writeFileSync_frame)
qed

lemma arm_all_snoc: "arm_all p (ds @ [d]) s = scheduleDeletion p d (arm_all p ds s)"
  by (simp add: arm_all_def)

lemma arm_all_consistent: "timers_consistent s \<Longrightarrow> timers_consistent (arm_all p ds s)"
  by (induction ds rule: rev_induct) (simp_all add: arm_all_snoc schedule_step(1), simp add: arm_all_def)

text \<open>
  Arming the same path any number of times in a row, from a state in which map and
  runtime agree, leaves exactly one pending timeout for that path: it carries the delay of
  the last call and is the one the map records. Map and runtime still agree afterwards,
  so no path has more than one pending timeout.
\<close>

theorem scheduleDeletion_last_wins:
  assumes "timers_consistent s" and "ds \<noteq> []"
  shows "map delayMs (timeouts_for filePath (arm_all filePath ds s)) = [last ds]
       \<and> map (\<lambda>t. Some (handle t)) (timeouts_for filePath (arm_all filePath ds s))
           = [timers (arm_all filePath ds s) filePath]
       \<and> timers_consistent (arm_all filePath ds s)
       \<and> (\<forall>q. length (timeouts_for q (arm_all filePath ds s)) \<le> 1)"
proof -
  obtain ds' d where ds: "ds = ds' @ [d]"
    using assms(2) by (cases ds rule: rev_cases) auto
  have c: "timers_consistent (arm_all filePath ds' s)"
    using assms(1) by (rule arm_all_consistent)
  show ?thesis
    using schedule_step[OF c, of filePath d] consistent_unique
    by (simp add: ds arm_all_snoc)
qed

theorem scheduleDeletion_last_wins_witness:
  "timers_consistent st0 \<and> [Finite 600000, Finite 0, Finite 7] \<noteq> []
   \<and> map delayMs (timeouts_for [''out'', ''a.pdf'']
          (arm_all [''out'', ''a.pdf''] [Finite 600000, Finite 0, Finite 7] st0)) = [Finite 7]
   \<and> length (pending (arm_all [''out'', ''a.pdf''] [Finite 600000, Finite 0, Finite 7] st0)) = 1"
proof -
  have h: "timers_consistent st0" by (simp add: st0_def timers_consistent_def)
  have "length (pending (arm_all [''out'', ''a.pdf''] [Finite 600000, Finite 0, Finite 7] st0)) = 1"
    by (simp add: arm_all_def st0_def scheduleDeletion_unfold Let_def clearScheduledDeletion_def
       clearTimeout_def writeFileSync_frame)
  with h scheduleDeletion_last_wins[OF h, of "[Finite 600000, Finite 0, Finite 7]" "[''out'', ''a.pdf'']"]
  show ?thesis by simp
qed

section \<open>Unfolding sets for concrete scenarios\<close>

lemmas fs_eval = stat_def resolve_def trailing_slash_def existsSync_def readdirSync_def
  PATH_MAX_def path_len_def children_def rmSync_force_def rmSync_rf_def under_def
  append_str_def dirname_def MARKER_DOWNLOADED_def MARKER_CREATED_def andThen_def caught_def
  readFileSync_def statSync_def writeFileSync_def write_at_def join_def slice_end_def
  endsWith_def NAME_MAX_def

lemmas text_eval = parseInt_def trim_def isDigit_def digits10_def digitVal_def
  digitsVal_def toString_def showNat.simps trimStart.simps trimEnd.simps white_space_def
  startsWith_def endsWith_def

section \<open>Paths\<close>

lemma resolve_append [simp]: "resolve (a @ b) = resolve a @ resolve b"
  by (simp add: resolve_def)

lemma resolve_append_str:
  "p \<noteq> [] \<Longrightarrow> suf \<noteq> [] \<Longrightarrow> resolve (append_str p suf) = resolve (butlast p) @ [last p @ suf]"
  by (simp add: append_str_def resolve_def)

lemma resolve_split_last:
  "p \<noteq> [] \<Longrightarrow> resolve p = resolve (butlast p) @ (if last p = [] then [] else [last p])"
  by (induction p rule: rev_induct) (auto simp: resolve_def)

lemma resolve_append_str_neq: "suf \<noteq> [] \<Longrightarrow> resolve (append_str p suf) \<noteq> resolve p"
proof (cases "p = []")
  case True
  assume "suf \<noteq> []"
  then show ?thesis using True by (simp add: append_str_def resolve_def)
next
  case False
  assume s: "suf \<noteq> []"
  show ?thesis
    using resolve_split_last[OF False] resolve_append_str[OF False s] s
    by (auto split: if_splits)
qed

lemma resolve_append_str_inj:
  "a \<noteq> [] \<Longrightarrow> b \<noteq> [] \<Longrightarrow> a \<noteq> b \<Longrightarrow> resolve (append_str p a) \<noteq> resolve (append_str p b)"
  by (cases "p = []") (auto simp: resolve_append_str, auto simp: append_str_def resolve_def)

lemma no_slash_append_str [simp]: "suf \<noteq> [] \<Longrightarrow> \<not> trailing_slash (append_str p suf)"
  by (simp add: trailing_slash_def append_str_def)

lemma markers_nonempty [simp]: "MARKER_DOWNLOADED \<noteq> []" "MARKER_CREATED \<noteq> []"
  "MARKER_DOWNLOADED \<noteq> MARKER_CREATED"
  by (simp_all add: MARKER_DOWNLOADED_def MARKER_CREATED_def)

section \<open>What the primitives leave behind\<close>

lemma stat_files_cong: "files s' = files s \<Longrightarrow> stat s' p = stat s p"
  by (simp add: stat_def)

lemma stat_delete:
  "stat (s\<lparr>files := AList.delete q (files s)\<rparr>) p = (if resolve p = q then None else stat s p)"
  by (simp add: stat_def delete_conv')

lemma map_of_prune:
  "map_of (filter (\<lambda>(q, n). \<not> under d q) fs) k = (if under d k then None else map_of fs k)"
  by (induction fs) auto

lemma stat_prune:
  "stat (s\<lparr>files := filter (\<lambda>(q, n). \<not> under d q) (files s)\<rparr>) p
     = (if under d (resolve p) then None else stat s p)"
  by (simp add: stat_def map_of_prune)

lemma under_refl [simp]: "under d d"
  by (simp add: under_def)

lemma delete_absent: "map_of fs q = None \<Longrightarrow> AList.delete q fs = fs"
  by (induction fs) (auto split: if_splits)

lemma rmSync_force_threw: "rmSync_force p s = Threw e s' \<Longrightarrow> s' = s"
  by (auto simp: rmSync_force_def split: option.splits node.splits if_splits)

lemma rmSync_rf_threw: "rmSync_rf p s = Threw e s' \<Longrightarrow> s' = s"
  by (auto simp: rmSync_rf_def split: option.splits if_splits)

lemma rmSync_force_absent: "stat s p = None \<Longrightarrow> rmSync_force p s = Returned s"
  by (simp add: rmSync_force_def)

lemma rmSync_force_guard:
  "(if existsSync s p then rmSync_force p s else Returned s) = rmSync_force p s"
  by (simp add: existsSync_def rmSync_force_absent)

lemma rmSync_force_returned:
  assumes "rmSync_force p s = Returned s'"
  shows "s' = s\<lparr>files := AList.delete (resolve p) (files s)\<rparr> \<or> (s' = s \<and> stat s p = None)"
  using assms by (auto simp: rmSync_force_def split: option.splits node.splits if_splits)

lemma rmSync_force_gone: "rmSync_force p s = Returned s' \<Longrightarrow> stat s' p = None"
  by (auto simp: rmSync_force_def stat_delete split: option.splits node.splits if_splits)

lemma shrunk_refl [simp]: "shrunk s s"
  by (simp add: shrunk_def)

lemma shrunk_trans: "shrunk s s' \<Longrightarrow> shrunk s' s'' \<Longrightarrow> shrunk s s''"
  unfolding shrunk_def by metis

lemma shrunk_stat_None: "shrunk s s' \<Longrightarrow> stat s p = None \<Longrightarrow> stat s' p = None"
  unfolding shrunk_def stat_def
  by (metis (no_types, lifting) option.simps(4))

lemma rmSync_force_shrunk: "rmSync_force p s = Returned s' \<Longrightarrow> shrunk s s'"
  by (auto simp: rmSync_force_def shrunk_def delete_conv' split: option.splits node.splits if_splits)

lemma rmSync_rf_shrunk: "rmSync_rf p s = Returned s' \<Longrightarrow> shrunk s s'"
  by (auto simp: rmSync_rf_def shrunk_def map_of_prune split: option.splits node.splits if_splits)

lemma rmSync_rf_gone: "rmSync_rf p s = Returned s' \<Longrightarrow> stat s' p = None"
  by (auto simp: rmSync_rf_def stat_prune split: option.splits if_splits)

lemma clean_empty_dir_threw: "clean_empty_dir d s = Threw e s' \<Longrightarrow> s' = s"
  by (auto simp: clean_empty_dir_def dest: rmSync_rf_threw split: if_splits sum.splits)

lemma clean_empty_dir_shrunk: "clean_empty_dir d s = Returned s' \<Longrightarrow> shrunk s s'"
  by (auto simp: clean_empty_dir_def dest: rmSync_rf_shrunk split: if_splits sum.splits)

lemma clean_empty_dir_again: "clean_empty_dir d s = Returned s' \<Longrightarrow> clean_empty_dir d s' = Returned s'"
  by (auto simp: clean_empty_dir_def existsSync_def dest: rmSync_rf_gone split: if_splits sum.splits)

lemma stat_frame [simp]:
  "stat (s\<lparr>timers := x\<rparr>) p = stat s p"
  "stat (s\<lparr>pending := y\<rparr>) p = stat s p"
  "stat (s\<lparr>nextHandle := z\<rparr>) p = stat s p"
  by (simp_all add: stat_def)

lemma delete_without: "AList.delete k fs = without [k] fs"
  by (induction fs) (auto simp: without_def)

lemma without_Nil [simp]: "without [] fs = fs"
  by (simp add: without_def)

lemma rm_file_effect:
  assumes "resolve x \<notin> set (locked s)" and "\<not> is_directory s x"
  shows "rmSync_force x s = Returned (s\<lparr>files := without (map resolve (filter (existsSync s) [x])) (files s)\<rparr>)"
  using assms
  by (auto simp: rmSync_force_def is_directory_def existsSync_def delete_without
      split: option.splits node.splits)

lemma without_without: "without a (without b fs) = without (b @ a) fs"
  by (auto simp: without_def intro!: filter_cong)

lemma map_of_without: "map_of (without gone fs) k = (if k \<in> set gone then None else map_of fs k)"
  unfolding without_def by (induction fs) auto

lemma stat_without:
  "stat (s\<lparr>files := without gone fs\<rparr>) p =
     (if resolve p \<in> set gone then None else stat (s\<lparr>files := fs\<rparr>) p)"
  by (simp add: stat_def map_of_without)

lemma files_same [simp]: "s\<lparr>files := files s\<rparr> = s"
  by simp


lemma children_without: "children (without gone fs) d = without gone (children fs d)"
  by (auto simp: children_def without_def intro: filter_cong)

lemma rm_three:
  assumes l: "locked s = []"
    and nd: "\<not> is_directory s p" "\<not> is_directory s (append_str p MARKER_DOWNLOADED)"
        "\<not> is_directory s (append_str p MARKER_CREATED)"
  shows "andThen (rmSync_force p s) (\<lambda>s1.
         andThen (rmSync_force (append_str p MARKER_DOWNLOADED) s1) (\<lambda>s2.
         andThen (rmSync_force (append_str p MARKER_CREATED) s2) f))
         = f (s\<lparr>files := without (removed_by_safeDelete p s) (files s)\<rparr>)"
proof -
  let ?dl = "append_str p MARKER_DOWNLOADED" and ?cr = "append_str p MARKER_CREATED"
  let ?s1 = "s\<lparr>files := without (map resolve (filter (existsSync s) [p])) (files s)\<rparr>"
  let ?s2 = "?s1\<lparr>files := without (map resolve (filter (existsSync ?s1) [?dl])) (files ?s1)\<rparr>"
  let ?s3 = "?s2\<lparr>files := without (map resolve (filter (existsSync ?s2) [?cr])) (files ?s2)\<rparr>"
  have ne: "resolve ?dl \<noteq> resolve p" "resolve ?cr \<noteq> resolve p" "resolve ?cr \<noteq> resolve ?dl"
    using markers_nonempty(3)[symmetric]
    by (simp_all add: resolve_append_str_neq resolve_append_str_inj)
  have e1: "stat ?s1 ?dl = stat s ?dl" "stat ?s1 ?cr = stat s ?cr"
    using ne by (auto simp: stat_without)
  have e2: "stat ?s2 ?cr = stat s ?cr"
    using ne e1 by (auto simp: stat_without)
  have r1: "rmSync_force p s = Returned ?s1"
    using l nd(1) by (intro rm_file_effect) simp_all
  have r2: "rmSync_force ?dl ?s1 = Returned ?s2"
    using l nd(2) e1 by (intro rm_file_effect) (simp_all add: is_directory_def)
  have r3: "rmSync_force ?cr ?s2 = Returned ?s3"
    using l nd(3) e2 by (intro rm_file_effect) (simp_all add: is_directory_def)
  have "?s3 = s\<lparr>files := without (removed_by_safeDelete p s) (files s)\<rparr>"
    using e1 e2 by (simp add: existsSync_def without_without removed_by_safeDelete_def)
  then show ?thesis
    using r1 r2 r3 by (simp add: andThen_def)
qed

lemma rm_rf_effect:
  "locked s = [] \<Longrightarrow>
   rmSync_rf d s = Returned (if existsSync s d then s\<lparr>files := prune (resolve d) (files s)\<rparr> else s)"
  by (auto simp: rmSync_rf_def existsSync_def prune_def split: option.splits)

lemma frames_rm_force:
  "rmSync_force p s = Returned s' \<Longrightarrow>
     timers s' = timers s \<and> pending s' = pending s \<and> nextHandle s' = nextHandle s
     \<and> clock s' = clock s \<and> locked s' = locked s"
  by (auto simp: rmSync_force_def split: option.splits node.splits if_splits)

lemma frames_rm_rf:
  "rmSync_rf p s = Returned s' \<Longrightarrow>
     timers s' = timers s \<and> pending s' = pending s \<and> nextHandle s' = nextHandle s
     \<and> clock s' = clock s \<and> locked s' = locked s"
  by (auto simp: rmSync_rf_def split: option.splits node.splits if_splits)

lemma frames_clean:
  "clean_empty_dir p s = Returned s' \<Longrightarrow>
     timers s' = timers s \<and> pending s' = pending s \<and> nextHandle s' = nextHandle s
     \<and> clock s' = clock s \<and> locked s' = locked s"
  by (auto simp: clean_empty_dir_def dest: frames_rm_rf split: sum.splits if_splits)

lemma clear_frames [simp]:
  "files (clearScheduledDeletion p s) = files s"
  "clock (clearScheduledDeletion p s) = clock s"
  "locked (clearScheduledDeletion p s) = locked s"
  "unwritable (clearScheduledDeletion p s) = unwritable s"
  "short_writes (clearScheduledDeletion p s) = short_writes s"
  by (auto simp: clearScheduledDeletion_def clearTimeout_def split: option.splits)

lemma stat_clear [simp]: "stat (clearScheduledDeletion p s) q = stat s q"
  by (simp add: stat_def)



lemma scheduleDeletion_frames [simp]:
  "clock (scheduleDeletion p d s) = clock s"
  "locked (scheduleDeletion p d s) = locked s"
  "unwritable (scheduleDeletion p d s) = unwritable s"
  "short_writes (scheduleDeletion p d s) = short_writes s"
  by (simp_all add: scheduleDeletion_unfold Let_def writeFileSync_frame)









lemma regular_map_of: "is_regular s x \<Longrightarrow> \<exists>c m t. map_of (files s) (resolve x) = Some (File c m t)"
  by (auto simp: is_regular_def stat_def split: option.splits node.splits if_splits)

section \<open>Marker text\<close>


















section \<open>safeDelete\<close>

lemma safeDelete_try_steps:
  "safeDelete_try p s =
     andThen (rmSync_force p s) (\<lambda>s1.
     andThen (rmSync_force (append_str p MARKER_DOWNLOADED) s1) (\<lambda>s2.
     andThen (rmSync_force (append_str p MARKER_CREATED) s2) (clean_empty_dir (dirname p))))"
  by (simp add: safeDelete_try_def rmSync_force_guard clean_empty_dir_def[abs_def])

lemma safeDelete_try_frames:
  "timers (caught (safeDelete_try p s)) = timers s \<and> pending (caught (safeDelete_try p s)) = pending s
   \<and> nextHandle (caught (safeDelete_try p s)) = nextHandle s
   \<and> clock (caught (safeDelete_try p s)) = clock s \<and> locked (caught (safeDelete_try p s)) = locked s"
proof -
  have t: "\<And>q e s s'. rmSync_force q s = Threw e s' \<Longrightarrow> s' = s" by (rule rmSync_force_threw)
  have c: "\<And>q e s s'. clean_empty_dir q s = Threw e s' \<Longrightarrow> s' = s" by (rule clean_empty_dir_threw)
  show ?thesis
    unfolding safeDelete_try_steps andThen_def caught_def
    by (auto split: outcome.splits dest!: frames_rm_force frames_clean t c)
qed

lemma safeDelete_try_shrunk: "shrunk s (caught (safeDelete_try p s))"
proof -
  have t: "\<And>q e s s'. rmSync_force q s = Threw e s' \<Longrightarrow> s' = s" by (rule rmSync_force_threw)
  have c: "\<And>q e s s'. clean_empty_dir q s = Threw e s' \<Longrightarrow> s' = s" by (rule clean_empty_dir_threw)
  show ?thesis
    unfolding safeDelete_try_steps andThen_def caught_def
    by (auto split: outcome.splits dest!: rmSync_force_shrunk clean_empty_dir_shrunk t c
        intro: shrunk_trans)
qed

lemma safeDelete_result:
  "safeDelete p s = Returned ((caught (safeDelete_try p s))\<lparr>timers := (timers s)(p := None)\<rparr>)"
  by (simp add: safeDelete_def Let_def safeDelete_try_frames)

lemma shrunk_timers [simp]: "shrunk s (s'\<lparr>timers := x\<rparr>) = shrunk s s'"
  by (simp add: shrunk_def)



text \<open>A timeout that comes due leaves map and runtime in agreement.\<close>

lemma fire_consistent:
  assumes "timers_consistent s"
  shows "timers_consistent (caught (fire h s))"
proof (cases "filter (\<lambda>t. handle t = h) (pending s)")
  case Nil
  then show ?thesis using assms by (simp add: fire_def caught_def)
next
  case (Cons t ts)
  have r: "\<forall>u\<in>set (pending s). handle u < nextHandle s \<and> timers s (target u) = Some (handle u)"
    and d: "distinct (map handle (pending s))"
    using assms by (auto simp: timers_consistent_def list_all_iff)
  have "t \<in> set (filter (\<lambda>t. handle t = h) (pending s))" using Cons by simp
  then have t: "t \<in> set (pending s)" "handle t = h" by auto
  have o: "target u \<noteq> target t" if "u \<in> set (pending s)" "handle u \<noteq> h" for u
    using r t that by (metis option.inject)
  have "timers_consistent ((clearTimeout h s)\<lparr>timers := (timers s)(target t := None)\<rparr>)"
    using r d o
    by (auto simp: timers_consistent_def list_all_iff clearTimeout_def distinct_map_filter)
  moreover have "caught (fire h s)
      = (caught (safeDelete_try (target t) (clearTimeout h s)))\<lparr>timers := (timers s)(target t := None)\<rparr>"
    using Cons by (simp add: fire_def safeDelete_result clearTimeout_def) (simp add: caught_def)
  ultimately show ?thesis
    by (simp add: timers_consistent_def safeDelete_try_frames clearTimeout_def)
qed

lemma safeDelete_try_again:
  "safeDelete_try p (caught (safeDelete_try p s)) = safeDelete_try p s
   \<or> safeDelete_try p (caught (safeDelete_try p s)) = Returned (caught (safeDelete_try p s))"
proof -
  let ?dl = "append_str p MARKER_DOWNLOADED" and ?cr = "append_str p MARKER_CREATED"
  show ?thesis
  proof (cases "rmSync_force p s")
    case (Threw e s')
    then have "s' = s" by (rule rmSync_force_threw)
    then show ?thesis using Threw
      by (simp add: safeDelete_try_steps andThen_def caught_def)
  next
    case (Returned s1)
    note r1 = Returned
    have a1: "stat s1 p = None" using r1 by (rule rmSync_force_gone)
    show ?thesis
    proof (cases "rmSync_force ?dl s1")
      case (Threw e s')
      then have "s' = s1" by (rule rmSync_force_threw)
      then show ?thesis using r1 Threw a1
        by (simp add: safeDelete_try_steps andThen_def caught_def rmSync_force_absent)
    next
      case (Returned s2)
      note r2 = Returned
      have a2: "stat s2 p = None" "stat s2 ?dl = None"
        using a1 r2 by (auto intro: shrunk_stat_None rmSync_force_shrunk rmSync_force_gone)
      show ?thesis
      proof (cases "rmSync_force ?cr s2")
        case (Threw e s')
        then have "s' = s2" by (rule rmSync_force_threw)
        then show ?thesis using r1 r2 Threw a2
          by (simp add: safeDelete_try_steps andThen_def caught_def rmSync_force_absent)
      next
        case (Returned s3)
        note r3 = Returned
        have a3: "stat s3 p = None" "stat s3 ?dl = None" "stat s3 ?cr = None"
          using a2 r3 by (auto intro: shrunk_stat_None rmSync_force_shrunk rmSync_force_gone)
        show ?thesis
        proof (cases "clean_empty_dir (dirname p) s3")
          case (Threw e s')
          then have "s' = s3" by (rule clean_empty_dir_threw)
          then show ?thesis using r1 r2 r3 Threw a3
            by (simp add: safeDelete_try_steps andThen_def caught_def rmSync_force_absent)
        next
          case (Returned s4)
          have a4: "stat s4 p = None" "stat s4 ?dl = None" "stat s4 ?cr = None"
            using a3 Returned by (auto intro: shrunk_stat_None clean_empty_dir_shrunk)
          show ?thesis using r1 r2 r3 Returned a4 clean_empty_dir_again[OF Returned]
            by (simp add: safeDelete_try_steps andThen_def caught_def rmSync_force_absent)
        qed
      qed
    qed
  qed
qed

lemma caught_again: "caught (safeDelete_try p (caught (safeDelete_try p s))) = caught (safeDelete_try p s)"
  using safeDelete_try_again[of p s] by (auto simp: caught_def)

lemma safeDelete_try_timers:
  "safeDelete_try p (s\<lparr>timers := x\<rparr>) =
     (case safeDelete_try p s of Returned s' \<Rightarrow> Returned (s'\<lparr>timers := x\<rparr>)
                               | Threw e s' \<Rightarrow> Threw e (s'\<lparr>timers := x\<rparr>))"
proof -
  have f: "\<And>q s. rmSync_force q (s\<lparr>timers := x\<rparr>) =
     (case rmSync_force q s of Returned s' \<Rightarrow> Returned (s'\<lparr>timers := x\<rparr>)
                               | Threw e s' \<Rightarrow> Threw e (s'\<lparr>timers := x\<rparr>))"
    by (auto simp: rmSync_force_def stat_def split: option.splits node.splits)
  have c: "\<And>q s. clean_empty_dir q (s\<lparr>timers := x\<rparr>) =
     (case clean_empty_dir q s of Returned s' \<Rightarrow> Returned (s'\<lparr>timers := x\<rparr>)
                               | Threw e s' \<Rightarrow> Threw e (s'\<lparr>timers := x\<rparr>))"
    by (auto simp: clean_empty_dir_def rmSync_rf_def existsSync_def readdirSync_def stat_def
        split: option.splits node.splits sum.splits)
  show ?thesis
    by (simp add: safeDelete_try_steps andThen_def f c split: outcome.splits)
qed

text \<open>
  C2. \<open>safeDelete\<close> returns for every path and every state, and a second call on
  the state it left returns that very state: nothing in the tree, the timer map or the
  runtime changes, whatever was or was not there the first time.
\<close>

theorem safeDelete_idempotent:
  "\<exists>s'. safeDelete filePath s = Returned s' \<and> safeDelete filePath s' = Returned s'"
proof -
  let ?t = "caught (safeDelete_try filePath s)"
  have "caught (safeDelete_try filePath (?t\<lparr>timers := (timers ?t)(filePath := None)\<rparr>))
          = ?t\<lparr>timers := (timers ?t)(filePath := None)\<rparr>"
    using caught_again[of filePath s]
    by (simp add: safeDelete_try_timers caught_def split: outcome.splits)
  then show ?thesis
    by (simp add: safeDelete_def Let_def)
qed

text \<open>
  C7 as stated fails: with the artifact's removal refused, \<open>safeDelete\<close> leaves both
  marker files in place although neither of them is locked, because the three removals
  share one \<open>try\<close> block.
\<close>

theorem safeDelete_markers_counterexample:
  "rmSync_force [''out'', ''R1'', ''a.pdf''] s_locked = Threw EPERM s_locked
   \<and> [''out'', ''R1'', ''a.pdf.created''] \<notin> set (locked s_locked)
   \<and> [''out'', ''R1'', ''a.pdf.downloaded''] \<notin> set (locked s_locked)
   \<and> existsSync (caught (safeDelete [''out'', ''R1'', ''a.pdf''] s_locked))
         (append_str [''out'', ''R1'', ''a.pdf''] MARKER_CREATED)
   \<and> existsSync (caught (safeDelete [''out'', ''R1'', ''a.pdf''] s_locked))
         (append_str [''out'', ''R1'', ''a.pdf''] MARKER_DOWNLOADED)"
  by (simp add: s_locked_def safeDelete_def safeDelete_try_def fs_eval)

text \<open>
  C7, amended. \<open>safeDelete\<close> never throws and always clears the path's entry in the
  timer map; when removing the artifact throws, the rest of the \<open>try\<close> block is
  skipped and the tree is left as it was.
\<close>

theorem safeDelete_absorbs_errors:
  "\<exists>s'. safeDelete filePath s = Returned s' \<and> timers s' filePath = None
       \<and> (\<forall>e. rmSync_force filePath s = Threw e s \<longrightarrow> files s' = files s)"
  by (auto simp: safeDelete_def Let_def safeDelete_try_steps andThen_def caught_def)

theorem safeDelete_absorbs_errors_witness:
  "rmSync_force [''out'', ''R1'', ''a.pdf''] s_locked = Threw EPERM s_locked
   \<and> timers (caught (safeDelete [''out'', ''R1'', ''a.pdf''] s_locked)) [''out'', ''R1'', ''a.pdf''] = None
   \<and> files (caught (safeDelete [''out'', ''R1'', ''a.pdf''] s_locked)) = files s_locked"
proof -
  have t: "rmSync_force [''out'', ''R1'', ''a.pdf''] s_locked = Threw EPERM s_locked"
    by (simp add: s_locked_def fs_eval)
  show ?thesis
    using safeDelete_absorbs_errors[of "[''out'', ''R1'', ''a.pdf'']" s_locked] t
    by (auto simp: caught_def)
qed

text \<open>
  C6. When no removal is refused, none of the three paths is a directory and the parent
  is not a regular file, \<open>safeDelete\<close> leaves the tree without the artifact and its
  markers, and without the parent directory exactly when the parent existed and has no
  entry left; otherwise the parent stays, with its other entries untouched.
\<close>

theorem safeDelete_cascade:
  assumes "locked s = []"
    and "\<not> is_directory s filePath"
    and "\<not> is_directory s (append_str filePath MARKER_DOWNLOADED)"
    and "\<not> is_directory s (append_str filePath MARKER_CREATED)"
    and "\<not> is_regular s (dirname filePath)"
    and "path_len (dirname filePath) < PATH_MAX"
  shows "\<exists>s'. safeDelete filePath s = Returned s'
     \<and> files s' =
         (let rest = without (removed_by_safeDelete filePath s) (files s)
          in if existsSync s (dirname filePath) \<and> children rest (resolve (dirname filePath)) = []
             then prune (resolve (dirname filePath)) rest else rest)
     \<and> \<not> existsSync s' filePath
     \<and> \<not> existsSync s' (append_str filePath MARKER_DOWNLOADED)
     \<and> \<not> existsSync s' (append_str filePath MARKER_CREATED)
     \<and> (existsSync s' (dirname filePath) \<longleftrightarrow>
          existsSync s (dirname filePath) \<and> children (files s') (resolve (dirname filePath)) \<noteq> [])"
proof -
  let ?d = "dirname filePath"
  let ?rest = "without (removed_by_safeDelete filePath s) (files s)"
  let ?s3 = "s\<lparr>files := ?rest\<rparr>"
  have tr: "safeDelete_try filePath s = clean_empty_dir ?d ?s3"
    unfolding safeDelete_try_steps using assms(1-4) by (rule rm_three)
  have l3: "locked ?s3 = []" using assms(1) by simp
  have sd: "stat ?s3 ?d = stat s ?d"
  proof (cases "resolve ?d \<in> set (removed_by_safeDelete filePath s)")
    case True
    then obtain y where y: "existsSync s y" "\<not> is_directory s y" "resolve y = resolve ?d"
      using assms(2-4) by (auto simp: removed_by_safeDelete_def split: if_splits)
    have "is_regular s y"
      using y(1,2) by (auto simp: existsSync_def is_directory_def is_regular_def split: node.splits)
    then obtain c m t where "map_of (files s) (resolve ?d) = Some (File c m t)"
      using regular_map_of y(3) by metis
    then have "stat s ?d = None"
      using assms(5) by (auto simp: stat_def is_regular_def split: if_splits)
    then show ?thesis using True by (simp add: stat_without)
  next
    case False
    then show ?thesis by (simp add: stat_without)
  qed
  have gone: "stat ?s3 q = None" if "q \<in> {filePath, append_str filePath MARKER_DOWNLOADED, append_str filePath MARKER_CREATED}" for q
    using that
    by (auto simp: stat_without removed_by_safeDelete_def existsSync_def)
  have pg: "stat (?s3\<lparr>files := prune (resolve ?d) ?rest\<rparr>) q = None" if "stat ?s3 q = None" for q
    using that by (auto simp: stat_def prune_def map_of_prune split: option.splits node.splits if_splits)
  show ?thesis
  proof (cases "existsSync s ?d")
    case False
    then have "clean_empty_dir ?d ?s3 = Returned ?s3"
      using sd by (simp add: clean_empty_dir_def existsSync_def)
    then show ?thesis using False gone sd
      by (simp add: safeDelete_def tr caught_def Let_def existsSync_def)
  next
    case True
    then have dir: "stat ?s3 ?d = Some Dir"
      using sd assms(5) by (auto simp: existsSync_def is_regular_def split: node.splits)
    have rd: "readdirSync ?s3 ?d = Inr (map (\<lambda>(q, n). Dirent (last q) (n = Dir) (n \<noteq> Dir))
                 (children ?rest (resolve ?d)))"
      using dir assms(6) by (simp add: readdirSync_def)
    show ?thesis
    proof (cases "children ?rest (resolve ?d) = []")
      case e: True
      have "clean_empty_dir ?d ?s3 = Returned (?s3\<lparr>files := prune (resolve ?d) ?rest\<rparr>)"
        using dir rd e l3 by (simp add: clean_empty_dir_def existsSync_def rm_rf_effect)
      moreover have "stat (?s3\<lparr>files := prune (resolve ?d) ?rest\<rparr>) ?d = None"
        by (simp add: stat_def prune_def map_of_prune)
      moreover have "children (prune (resolve ?d) ?rest) (resolve ?d) = []"
        using e by (auto simp: children_def prune_def filter_empty_conv)
      ultimately show ?thesis using True e gone pg
        by (simp add: safeDelete_def tr caught_def Let_def existsSync_def)
    next
      case ne: False
      have "clean_empty_dir ?d ?s3 = Returned ?s3"
        using dir rd ne by (simp add: clean_empty_dir_def existsSync_def)
      then show ?thesis using True ne gone dir
        by (simp add: safeDelete_def tr caught_def Let_def existsSync_def)
    qed
  qed
qed

theorem safeDelete_cascade_witness:
  "files (caught (safeDelete [''outputs'', ''R1'', ''a.pdf''] s_alone)) = [([''outputs''], Dir)]
   \<and> files (caught (safeDelete [''outputs'', ''R1'', ''a.pdf''] s_pair))
       = [([''outputs''], Dir), ([''outputs'', ''R1''], Dir),
          ([''outputs'', ''R1'', ''b.pdf''], File ''%PDF'' 7 7)]"
proof -
  have a: "locked s_alone = []" "\<not> is_directory s_alone [''outputs'', ''R1'', ''a.pdf'']"
    "\<not> is_directory s_alone (append_str [''outputs'', ''R1'', ''a.pdf''] MARKER_DOWNLOADED)"
    "\<not> is_directory s_alone (append_str [''outputs'', ''R1'', ''a.pdf''] MARKER_CREATED)"
    "\<not> is_regular s_alone (dirname [''outputs'', ''R1'', ''a.pdf''])"
    "path_len (dirname [''outputs'', ''R1'', ''a.pdf'']) < PATH_MAX"
    by (simp_all add: s_alone_def is_directory_def is_regular_def fs_eval)
  have b: "locked s_pair = []" "\<not> is_directory s_pair [''outputs'', ''R1'', ''a.pdf'']"
    "\<not> is_directory s_pair (append_str [''outputs'', ''R1'', ''a.pdf''] MARKER_DOWNLOADED)"
    "\<not> is_directory s_pair (append_str [''outputs'', ''R1'', ''a.pdf''] MARKER_CREATED)"
    "\<not> is_regular s_pair (dirname [''outputs'', ''R1'', ''a.pdf''])"
    "path_len (dirname [''outputs'', ''R1'', ''a.pdf'']) < PATH_MAX"
    by (simp_all add: s_pair_def s_alone_def is_directory_def is_regular_def fs_eval)
  show ?thesis
    using safeDelete_cascade[OF a] safeDelete_cascade[OF b]
    by (auto simp: caught_def Let_def removed_by_safeDelete_def without_def prune_def
        s_pair_def s_alone_def fs_eval)
qed

section \<open>Unfolding the scheduler on scenarios\<close>

lemmas sched_eval = hydrate_marker_def safeDelete_def safeDelete_try_def scheduleDeletion_def
  clearScheduledDeletion_def clearTimeout_def setTimeout_def purge_file_def createdAt_def
  clean_empty_dir_def first_truthy_def hydrateFromDisk_def purgeOlderThan_def
  TEN_MIN_def ONE_DAY_def artifact_of_def remaining_ms_def timeouts_for_def Let_def


section \<open>A direct deletion and the pending timeout\<close>

text \<open>
  C1. \<open>scheduleDeletion\<close> cancels the timeout the map records for the path, and
  \<open>clearScheduledDeletion\<close> cancels and forgets together. The \<open>finally\<close> of
  \<open>safeDelete\<close> only forgets: when the sweep or hydration calls it for a path whose
  timeout is still pending, the runtime keeps that timeout, and the next
  \<open>scheduleDeletion\<close> has nothing to cancel. First the three calls in a row on
  \<open>st0\<close>. Then through the application on \<open>s_held\<close>: a download arms ten minutes,
  the hourly sweep finds the artifact older than a day and its removal refused, a second
  download arms ten minutes again. Either way two timeouts are pending for the one path.
\<close>

theorem safeDelete_leaves_stale_timeout:
  "timers_consistent st0
   \<and> map delayMs (timeouts_for [''out'', ''a.pdf'']
        (scheduleDeletion [''out'', ''a.pdf''] (Finite 7)
          (caught (safeDelete [''out'', ''a.pdf'']
            (scheduleDeletion [''out'', ''a.pdf''] (Finite 600000) st0)))))
       = [Finite 600000, Finite 7]
   \<and> timers_consistent s_held
   \<and> (let s1 = scheduleDeletion [''outputs'', ''R1'', ''a.pdf''] (num TEN_MIN) s_held;
           s2 = caught (purgeOlderThan [''outputs''] ONE_DAY s1);
           s3 = scheduleDeletion [''outputs'', ''R1'', ''a.pdf''] (num TEN_MIN) s2
       in existsSync s2 [''outputs'', ''R1'', ''a.pdf'']
          \<and> timers s2 [''outputs'', ''R1'', ''a.pdf''] = None
          \<and> map delayMs (timeouts_for [''outputs'', ''R1'', ''a.pdf''] s2) = [Finite 600000]
          \<and> \<not> timers_consistent s2
          \<and> map delayMs (timeouts_for [''outputs'', ''R1'', ''a.pdf''] s3)
              = [Finite 600000, Finite 600000])"
proof -
  let ?a = "[''outputs'', ''R1'', ''a.pdf'']"
  let ?t = "\<lparr>handle = 0, target = ?a, delayMs = Finite 600000\<rparr>"
  let ?fs = "files s_held @ [([''outputs'', ''R1'', ''a.pdf.downloaded''],
               File ''1700000000000'' 1700000000000 1700000000000)]"
  let ?s1 = "s_held\<lparr>files := ?fs, timers := [?a \<mapsto> 0], pending := [?t], nextHandle := 1\<rparr>"
  let ?s2 = "s_held\<lparr>files := ?fs, timers := Map.empty, pending := [?t], nextHandle := 1\<rparr>"
  have c: "timers_consistent st0" "timers_consistent s_held"
    by (simp_all add: st0_def s_held_def timers_consistent_def)
  have d: "map delayMs (timeouts_for [''out'', ''a.pdf'']
        (scheduleDeletion [''out'', ''a.pdf''] (Finite 7)
          (caught (safeDelete [''out'', ''a.pdf'']
            (scheduleDeletion [''out'', ''a.pdf''] (Finite 600000) st0)))))
       = [Finite 600000, Finite 7]"
    by (simp add: st0_def sched_eval fs_eval text_eval)
  have s1: "scheduleDeletion ?a (num TEN_MIN) s_held = ?s1"
    by (simp add: s_held_def sched_eval fs_eval text_eval num_eval)
  have s2: "caught (purgeOlderThan [''outputs''] ONE_DAY ?s1) = ?s2"
    by (simp add: s_held_def sched_eval fs_eval text_eval num_eval)
  have e: "existsSync ?s2 ?a" "timers ?s2 ?a = None"
    "map delayMs (timeouts_for ?a ?s2) = [Finite 600000]" "\<not> timers_consistent ?s2"
    by (simp_all add: s_held_def timers_consistent_def timeouts_for_def fs_eval)
  have s3: "map delayMs (timeouts_for ?a (scheduleDeletion ?a (num TEN_MIN) ?s2))
              = [Finite 600000, Finite 600000]"
    by (simp add: s_held_def sched_eval fs_eval text_eval num_eval)
  show ?thesis
    unfolding Let_def s1 s2 using c d e s3 by (intro conjI)
qed

section \<open>Hydration, one marker at a time\<close>

text \<open>
  C5 as stated fails: in \<open>s_orphan_locked\<close> the marker \<open>a.pdf.downloaded\<close> has no
  artifact and its removal is refused. The \<open>rmSync\<close> of line 100 stands outside any
  \<open>try\<close>, so hydration throws: the marker stays, and neither the rest of the walk nor
  the sweep that follows it runs.
\<close>

theorem hydrate_orphan_counterexample:
  "is_regular s_orphan_locked [''outputs'', ''R1'', ''a.pdf.downloaded'']
   \<and> \<not> existsSync s_orphan_locked [''outputs'', ''R1'', ''a.pdf'']
   \<and> hydrateFromDisk [''outputs''] TEN_MIN ONE_DAY s_orphan_locked = Threw EPERM s_orphan_locked"
  by (simp add: s_orphan_locked_def s_orphan_def is_regular_def sched_eval fs_eval)

text \<open>
  C5, amended. A \<open>.downloaded\<close> marker whose artifact does not exist and which is not
  a directory. When the marker's removal is not refused, hydration returns with the marker
  gone, every other entry where it was, and the timer map, the pending timeouts and the
  handle counter untouched. When the removal is refused, the error is thrown to the caller
  and nothing has changed, so in neither case is a timer armed or a deletion scheduled.
\<close>

theorem hydrate_orphan_marker:
  assumes "\<not> existsSync s (slice_end full (length MARKER_DOWNLOADED))"
    and "\<not> is_directory s full"
  shows "(resolve full \<notin> set (locked s) \<longrightarrow>
           (\<exists>s'. hydrate_marker downloadDelayMs full s = Returned s'
              \<and> \<not> existsSync s' full
              \<and> files s' = (if existsSync s full then without [resolve full] (files s) else files s)
              \<and> timers s' = timers s \<and> pending s' = pending s \<and> nextHandle s' = nextHandle s))
       \<and> (resolve full \<in> set (locked s) \<and> existsSync s full \<longrightarrow>
            hydrate_marker downloadDelayMs full s = Threw EPERM s)"
proof (intro conjI impI)
  have m: "hydrate_marker downloadDelayMs full s = rmSync_force full s"
    using assms(1) by (simp add: hydrate_marker_def)
  {
    assume "resolve full \<notin> set (locked s)"
    then show "\<exists>s'. hydrate_marker downloadDelayMs full s = Returned s'
              \<and> \<not> existsSync s' full
              \<and> files s' = (if existsSync s full then without [resolve full] (files s) else files s)
              \<and> timers s' = timers s \<and> pending s' = pending s \<and> nextHandle s' = nextHandle s"
      using rm_file_effect[OF _ assms(2)] m
      by (auto simp: existsSync_def stat_without)
  next
    assume "resolve full \<in> set (locked s) \<and> existsSync s full"
    then show "hydrate_marker downloadDelayMs full s = Threw EPERM s"
      using assms(2) m
      by (auto simp: rmSync_force_def existsSync_def is_directory_def
          split: option.splits node.splits)
  }
qed

theorem hydrate_orphan_marker_witness:
  "\<not> existsSync s_orphan (slice_end [''outputs'', ''R1'', ''a.pdf.downloaded''] (length MARKER_DOWNLOADED))
   \<and> files (caught (hydrate_marker TEN_MIN [''outputs'', ''R1'', ''a.pdf.downloaded''] s_orphan))
       = [([''outputs''], Dir), ([''outputs'', ''R1''], Dir),
          ([''outputs'', ''R1'', ''b.pdf''], File ''%PDF'' 1699999990000 1699999990000)]
   \<and> pending (caught (hydrate_marker TEN_MIN [''outputs'', ''R1'', ''a.pdf.downloaded''] s_orphan)) = []
   \<and> hydrateFromDisk [''outputs''] TEN_MIN ONE_DAY s_orphan
       = Returned (s_orphan\<lparr>files := [([''outputs''], Dir), ([''outputs'', ''R1''], Dir),
          ([''outputs'', ''R1'', ''b.pdf''], File ''%PDF'' 1699999990000 1699999990000)]\<rparr>)
   \<and> hydrate_marker TEN_MIN [''outputs'', ''R1'', ''a.pdf.downloaded''] s_orphan_locked
       = Threw EPERM s_orphan_locked"
proof -
  let ?m = "[''outputs'', ''R1'', ''a.pdf.downloaded'']"
  have h: "\<not> existsSync s_orphan (slice_end ?m (length MARKER_DOWNLOADED))"
    "\<not> is_directory s_orphan ?m"
    "resolve ?m \<notin> set (locked s_orphan)"
    by (simp_all add: s_orphan_def is_directory_def fs_eval)
  have l: "\<not> existsSync s_orphan_locked (slice_end ?m (length MARKER_DOWNLOADED))"
    "\<not> is_directory s_orphan_locked ?m"
    "resolve ?m \<in> set (locked s_orphan_locked) \<and> existsSync s_orphan_locked ?m"
    by (simp_all add: s_orphan_locked_def s_orphan_def is_directory_def fs_eval)
  have r: "hydrateFromDisk [''outputs''] TEN_MIN ONE_DAY s_orphan
       = Returned (s_orphan\<lparr>files := [([''outputs''], Dir), ([''outputs'', ''R1''], Dir),
          ([''outputs'', ''R1'', ''b.pdf''], File ''%PDF'' 1699999990000 1699999990000)]\<rparr>)"
    by (simp add: s_orphan_def sched_eval fs_eval text_eval num_eval)
  show ?thesis
    using hydrate_orphan_marker[OF h(1,2), of TEN_MIN] hydrate_orphan_marker[OF l(1,2), of TEN_MIN]
      h(1,3) l(3) r
    by (auto simp: caught_def without_def s_orphan_def fs_eval)
qed






section \<open>The sweep, one file at a time\<close>




section \<open>The request workspace\<close>

lemma under_comparable: "under a q \<Longrightarrow> under b q \<Longrightarrow> under a b \<or> under b a"
proof -
  assume a: "under a q" and b: "under b q"
  show ?thesis
  proof (cases "length a \<le> length b")
    case True
    have "take (length a) b = take (length a) (take (length b) q)"
      using b by (simp add: under_def)
    also have "\<dots> = take (length a) q" using True by (simp add: min_def)
    finally show ?thesis using a by (simp add: under_def)
  next
    case False
    have "take (length b) a = take (length b) (take (length a) q)"
      using a by (simp add: under_def)
    also have "\<dots> = take (length b) q" using False by (simp add: min_def)
    finally show ?thesis using b by (simp add: under_def)
  qed
qed

lemma cleanupDir_cases:
  "caught (cleanupDir d s) = s \<or> caught (cleanupDir d s) = s\<lparr>files := prune (resolve d) (files s)\<rparr>"
  by (auto simp: cleanupDir_def rmSync_rf_def caught_def prune_def split: option.splits)

lemma only_dirs_added_refl [simp]: "only_dirs_added s s"
  by (simp add: only_dirs_added_def)

lemma only_dirs_added_trans:
  assumes "only_dirs_added s s1" and "only_dirs_added s1 s2"
  shows "only_dirs_added s s2"
proof -
  obtain a where a: "files s1 = files s @ a" "list_all (\<lambda>(q, n). n = Dir) a"
    using assms(1) by (metis only_dirs_added_def append_take_drop_id)
  obtain b where b: "files s2 = files s1 @ b" "list_all (\<lambda>(q, n). n = Dir) b"
    using assms(2) by (metis only_dirs_added_def append_take_drop_id)
  show ?thesis using a b by (simp add: only_dirs_added_def)
qed

lemma mkdir_one:
  "only_dirs_added s1 (caught (case map_of (files s1) q of
        None \<Rightarrow> Returned (s1\<lparr>files := files s1 @ [(q, Dir)]\<rparr>)
      | Some Dir \<Rightarrow> Returned s1
      | Some (File c m t) \<Rightarrow> Threw ENOTDIR s1))"
proof (cases "map_of (files s1) q")
  case None
  then show ?thesis by (simp add: caught_def only_dirs_added_def)
next
  case (Some n)
  then show ?thesis by (cases n) (simp_all add: caught_def)
qed

lemma mkdir_step_adds:
  assumes "only_dirs_added s (caught r)"
  shows "only_dirs_added s (caught (mkdir_step r q))"
proof (cases r)
  case (Returned s1)
  have "only_dirs_added s s1" using assms Returned by (simp add: caught_def)
  then show ?thesis
    using mkdir_one[of s1 q] Returned
    by (simp add: mkdir_step_def andThen_def only_dirs_added_trans)
next
  case (Threw e s1)
  then show ?thesis using assms by (simp add: mkdir_step_def andThen_def caught_def)
qed

lemma mkdir_fold_adds:
  "only_dirs_added s (caught r) \<Longrightarrow> only_dirs_added s (caught (foldl mkdir_step r qs))"
  by (induction qs arbitrary: r) (simp_all add: mkdir_step_adds)

lemma mkdirSync_adds: "only_dirs_added s (caught (mkdirSync_recursive p s))"
  unfolding mkdirSync_recursive_def by (rule mkdir_fold_adds) (simp add: caught_def)

lemma guarded_mkdir_adds:
  "only_dirs_added s (caught (if \<not> existsSync s d then mkdirSync_recursive d s else Returned s))"
  by (simp add: mkdirSync_adds) (simp add: caught_def)

lemma andThen_adds:
  assumes "only_dirs_added s (caught r)" and "\<And>s1. only_dirs_added s1 (caught (f s1))"
  shows "only_dirs_added s (caught (andThen r f))"
proof (cases r)
  case (Returned s1)
  then have "only_dirs_added s s1" using assms(1) by (simp add: caught_def)
  then show ?thesis using assms(2)[of s1] Returned
    by (simp add: andThen_def only_dirs_added_trans)
next
  case (Threw e s1)
  then show ?thesis using assms(1) by (simp add: andThen_def caught_def)
qed

lemma withTempWorkspace_adds:
  "only_dirs_added s (caught (withTempWorkspace baseUploads baseOutputs requestId s))"
  unfolding withTempWorkspace_def
  by (rule andThen_adds) (rule guarded_mkdir_adds)+

text \<open>
  C9. For upload and output directories of a request that do not lie inside one another:
  setting the workspace up only appends new directories to the tree, and the completion
  hook returns with every entry at or below \<open>outputs/<requestId>\<close> as it was; all it
  may remove lies at or below \<open>uploads/<requestId>\<close>.
\<close>

theorem workspace_leaves_outputs:
  assumes "\<not> under (resolve (join baseUploads requestId)) (resolve (join baseOutputs requestId))"
    and "\<not> under (resolve (join baseOutputs requestId)) (resolve (join baseUploads requestId))"
  shows "only_dirs_added s (caught (withTempWorkspace baseUploads baseOutputs requestId s))
     \<and> (\<exists>s'. on_finish baseUploads baseOutputs requestId s = Returned s'
          \<and> subtree (resolve (join baseOutputs requestId)) s'
              = subtree (resolve (join baseOutputs requestId)) s
          \<and> prune (resolve (join baseUploads requestId)) (files s')
              = prune (resolve (join baseUploads requestId)) (files s)
          \<and> timers s' = timers s \<and> pending s' = pending s)"
proof -
  let ?U = "resolve (join baseUploads requestId)" and ?O = "resolve (join baseOutputs requestId)"
  have d: "under ?O q \<Longrightarrow> \<not> under ?U q" for q
    using assms under_comparable[of ?O q ?U] by auto
  have "filter (\<lambda>(q, n). under ?O q) (prune ?U fs) = filter (\<lambda>(q, n). under ?O q) fs" for fs
    using d by (auto simp: prune_def intro: filter_cong)
  moreover have "prune ?U (prune ?U fs) = prune ?U fs" for fs
    by (simp add: prune_def)
  ultimately show ?thesis
    using cleanupDir_cases[of "join baseUploads requestId" s] withTempWorkspace_adds
    by (auto simp: on_finish_def subtree_def)
qed

theorem workspace_leaves_outputs_witness:
  "on_finish [''uploads''] [''outputs''] ''R1'' s_request
     = Returned (s_request\<lparr>files := [([''uploads''], Dir), ([''outputs''], Dir), ([''outputs'', ''R1''], Dir),
         ([''outputs'', ''R1'', ''a.pdf''], File ''%PDF'' 1699999995000 1699999995000),
         ([''outputs'', ''R1'', ''a.pdf.created''], File ''1699999995000'' 1699999995000 1699999995000)]\<rparr>)
   \<and> subtree [''outputs'', ''R1''] (caught (on_finish [''uploads''] [''outputs''] ''R1'' s_request))
       = subtree [''outputs'', ''R1''] s_request
   \<and> files (caught (withTempWorkspace [''uploads''] [''outputs''] ''R2'' s_request))
       = files s_request @ [([''uploads'', ''R2''], Dir), ([''outputs'', ''R2''], Dir)]"
proof -
  have h: "\<not> under (resolve (join [''uploads''] ''R1'')) (resolve (join [''outputs''] ''R1''))"
    "\<not> under (resolve (join [''outputs''] ''R1'')) (resolve (join [''uploads''] ''R1''))"
    by (simp_all add: fs_eval)
  have r: "on_finish [''uploads''] [''outputs''] ''R1'' s_request
     = Returned (s_request\<lparr>files := [([''uploads''], Dir), ([''outputs''], Dir), ([''outputs'', ''R1''], Dir),
         ([''outputs'', ''R1'', ''a.pdf''], File ''%PDF'' 1699999995000 1699999995000),
         ([''outputs'', ''R1'', ''a.pdf.created''], File ''1699999995000'' 1699999995000 1699999995000)]\<rparr>)"
    by (simp add: on_finish_def cleanupDir_def s_request_def fs_eval)
  have w: "files (caught (withTempWorkspace [''uploads''] [''outputs''] ''R2'' s_request))
       = files s_request @ [([''uploads'', ''R2''], Dir), ([''outputs'', ''R2''], Dir)]"
    by (simp add: withTempWorkspace_def mkdirSync_recursive_def mkdir_step_def s_request_def fs_eval)
  show ?thesis
    using workspace_leaves_outputs[OF h, of s_request] r w
    by (auto simp: caught_def fs_eval)
qed

section \<open>Stray creation markers\<close>

subsection \<open>Names\<close>

lemma suffix_clash: "endsWith nm MARKER_CREATED \<Longrightarrow> \<not> endsWith nm MARKER_DOWNLOADED"
proof
  assume c: "endsWith nm MARKER_CREATED" and d: "endsWith nm MARKER_DOWNLOADED"
  obtain u where u: "nm = u @ MARKER_CREATED"
    using c by (metis append_take_drop_id endsWith_def)
  obtain v where v: "nm = v @ MARKER_DOWNLOADED"
    using d by (metis append_take_drop_id endsWith_def)
  have "rev (u @ MARKER_CREATED) = rev (v @ MARKER_DOWNLOADED)" using u v by simp
  then show False by (simp add: MARKER_CREATED_def MARKER_DOWNLOADED_def)
qed

lemma endsWith_append [simp]: "endsWith (u @ suf) suf"
  by (simp add: endsWith_def)

lemma last_append_str: "suf \<noteq> [] \<Longrightarrow> endsWith (last (resolve (append_str x suf))) suf \<and> resolve (append_str x suf) \<noteq> []"
  by (cases "x = []") (auto simp: append_str_def resolve_def endsWith_def)

lemma resolve_normal: "[] \<notin> set q \<Longrightarrow> resolve q = q"
  by (auto simp: resolve_def filter_id_conv)

lemma last_resolve: "x \<noteq> [] \<Longrightarrow> \<not> trailing_slash x \<Longrightarrow> resolve x \<noteq> [] \<and> last (resolve x) = last x"
  by (induction x rule: rev_induct) (auto simp: trailing_slash_def resolve_def)

lemma stat_same_place:
  "resolve x = resolve y \<Longrightarrow> trailing_slash x = trailing_slash y \<Longrightarrow> stat s x = stat s y"
  by (auto simp: stat_def split: option.splits node.splits)

lemma regular_no_slash: "is_regular s x \<Longrightarrow> \<not> trailing_slash x"
  by (auto simp: is_regular_def stat_def split: option.splits node.splits if_splits)

lemma created_of_artifact:
  assumes q: "created_marker_path q" and e: "resolve (append_str x MARKER_CREATED) = q"
  shows "stat s x = stat s (slice_end q (length MARKER_CREATED)) \<and> x \<noteq> [] \<and> \<not> trailing_slash x"
proof -
  have q1: "q \<noteq> []" "[] \<notin> set q" "length MARKER_CREATED < length (last q)"
    using q by (auto simp: created_marker_path_def)
  have xne: "x \<noteq> []"
  proof
    assume "x = []"
    then have "q = [MARKER_CREATED]" using e by (simp add: append_str_def resolve_def)
    then show False using q1(3) by simp
  qed
  have r: "resolve (butlast x) @ [last x @ MARKER_CREATED] = q"
    using e xne by (simp add: resolve_append_str)
  then have b: "resolve (butlast x) = butlast q" and l: "last x @ MARKER_CREATED = last q"
    by auto
  have lne: "last x \<noteq> []" using l q1(3) by auto
  have t: "take (length (last q) - length MARKER_CREATED) (last q) = last x"
    using l by (metis append_eq_conv_conj length_append add_diff_cancel_right')
  have a: "slice_end q (length MARKER_CREATED) = butlast q @ [last x]"
    using q1(1) t by (simp add: slice_end_def)
  have "[] \<notin> set (butlast q)" using q1(2) by (meson in_set_butlastD)
  then have ra: "resolve (slice_end q (length MARKER_CREATED)) = butlast q @ [last x]"
    using lne by (simp add: a resolve_normal) 
  have rx: "resolve x = butlast q @ [last x]"
    using resolve_split_last[OF xne] b lne by simp
  have "\<not> trailing_slash x" "\<not> trailing_slash (slice_end q (length MARKER_CREATED))"
    using lne xne by (simp_all add: trailing_slash_def a)
  then show ?thesis using ra rx xne by (simp add: stat_same_place)
qed



subsection \<open>What each primitive keeps\<close>

lemma keeps_refl [simp]: "keeps q s s"
  by (simp add: keeps_def)

lemma keeps_trans: "keeps q s s1 \<Longrightarrow> keeps q s1 s2 \<Longrightarrow> keeps q s s2"
  by (simp add: keeps_def)

lemma keeps_timers [simp]: "keeps q s (s'\<lparr>timers := x\<rparr>) = keeps q s s'"
  by (simp add: keeps_def)


lemma prefix_take: "under k q \<Longrightarrow> k = take (length k) q \<and> length k \<le> length q"
  by (metis under_def length_take min.cobounded2 min.commute)

lemma orphan_prefix:
  assumes "orphan_at n q s" and "k \<noteq> []" and "under k q"
  shows "(k = q \<and> map_of (files s) k = Some n) \<or> (k \<noteq> q \<and> map_of (files s) k = Some Dir)"
proof -
  have k: "k = take (length k) q" "length k \<le> length q"
    using prefix_take[OF assms(3)] by auto
  show ?thesis
  proof (cases "length k = length q")
    case True
    then have "k = q" using k(1) by simp
    then show ?thesis using assms(1) by (simp add: orphan_at_def)
  next
    case False
    then have "length k \<in> set [1..<length q]" using k(2) assms(2) by (cases k) auto
    then have "map_of (files s) (take (length k) q) = Some Dir"
      using assms(1) by (auto simp: orphan_at_def list_all_iff)
    moreover have "k \<noteq> q" using False by auto
    ultimately show ?thesis using k(1) by simp
  qed
qed

lemma orphan_keeps:
  assumes "orphan_at n q s" and "keeps q s s'"
  shows "orphan_at n q s'"
proof -
  have q: "q \<noteq> []" using assms(1) by (simp add: orphan_at_def created_marker_path_def)
  have a: "map_of (files s') q = map_of (files s) q"
    using assms(2) q by (simp add: keeps_def)
  have b: "map_of (files s') (take k q) = map_of (files s) (take k q)" if "k \<in> set [1..<length q]" for k
  proof -
    have "take k q \<noteq> []" "under (take k q) q" using that q by (auto simp: under_def min_def)
    then show ?thesis using assms(2) by (simp add: keeps_def)
  qed
  have c: "stat s' (slice_end q (length MARKER_CREATED)) = None"
    using assms by (simp add: orphan_at_def keeps_def)
  show ?thesis
    using assms(1) a b c by (auto simp: orphan_at_def list_all_iff)
qed


lemma orphan_not_regular_prefix:
  assumes "orphan_at n q s" and "k \<noteq> []" and "under k q" and "is_regular s x" and "resolve x \<noteq> q"
  shows "k \<noteq> resolve x"
  using orphan_prefix[OF assms(1-3)] regular_map_of[OF assms(4)] assms(5) by auto

lemma rmSync_force_returned':
  "rmSync_force x s = Returned s' \<Longrightarrow>
     s' = s \<or> (is_regular s x \<and> s' = s\<lparr>files := AList.delete (resolve x) (files s)\<rparr>)"
  by (auto simp: rmSync_force_def is_regular_def split: option.splits node.splits if_splits)

lemma rm_keeps:
  assumes o: "orphan_at n q s" and x: "resolve x \<noteq> q \<or> \<not> is_regular s x"
    and r: "rmSync_force x s = Returned s'"
  shows "keeps q s s'"
proof -
  from rmSync_force_returned'[OF r] show ?thesis
  proof
    assume "s' = s" then show ?thesis by simp
  next
    assume a: "is_regular s x \<and> s' = s\<lparr>files := AList.delete (resolve x) (files s)\<rparr>"
    then have ne: "resolve x \<noteq> q" using x by auto
    have "k \<noteq> resolve x" if "k \<noteq> []" "under k q" for k
      using orphan_not_regular_prefix[OF o that] a ne by simp
    then show ?thesis using a
      by (auto simp: keeps_def delete_conv' stat_delete)
  qed
qed

lemma clean_empty_dir_returned:
  "clean_empty_dir D s = Returned s' \<Longrightarrow>
     s' = s \<or> (stat s D = Some Dir \<and> children (files s) (resolve D) = []
               \<and> s' = s\<lparr>files := prune (resolve D) (files s)\<rparr>)"
  by (auto simp: clean_empty_dir_def readdirSync_def rmSync_rf_def prune_def existsSync_def
      split: if_splits sum.splits option.splits node.splits)

lemma under_trans: "under a b \<Longrightarrow> under b c \<Longrightarrow> under a c"
  by (metis under_def prefix_take take_take min.absorb1)

lemma clean_keeps:
  assumes o: "orphan_at n q s" and r: "clean_empty_dir D s = Returned s'"
  shows "keeps q s s'"
proof -
  from clean_empty_dir_returned[OF r] show ?thesis
  proof
    assume "s' = s" then show ?thesis by simp
  next
    assume a: "stat s D = Some Dir \<and> children (files s) (resolve D) = []
               \<and> s' = s\<lparr>files := prune (resolve D) (files s)\<rparr>"
    let ?R = "resolve D"
    have q: "q \<noteq> []" using o by (simp add: orphan_at_def created_marker_path_def)
    have rd: "map_of (files s) ?R = Some Dir"
      using a by (auto simp: stat_def split: option.splits node.splits if_splits)
    have nu: "\<not> under ?R q"
    proof
      assume u: "under ?R q"
      have k: "?R = take (length ?R) q" "length ?R \<le> length q"
        using prefix_take[OF u] by auto
      show False
      proof (cases "length ?R = length q")
        case True
        then have "?R = q" using k(1) by simp
        then show False using rd o by (auto simp: orphan_at_def)
      next
        case False
        let ?c = "take (Suc (length ?R)) q"
        have c: "?c \<noteq> []" "under ?c q" using q by (auto simp: under_def min_def)
        have "map_of (files s) ?c \<noteq> None" using orphan_prefix[OF o c] by auto
        then obtain v where "(?c, v) \<in> set (files s)" by (auto dest: map_of_SomeD)
        moreover have "butlast ?c = ?R"
          using False k by (metis butlast_take diff_Suc_1 Suc_leI le_neq_implies_less)
        ultimately have "(?c, v) \<in> set (children (files s) ?R)"
          using c(1) by (simp add: children_def)
        then show False using a by simp
      qed
    qed
    have "\<not> under ?R k" if "under k q" for k
      using nu that under_trans by blast
    then show ?thesis using a
      by (auto simp: keeps_def prune_def map_of_prune stat_prune)
  qed
qed



subsection \<open>What the scheduler keeps\<close>

lemma marker_dl_not_q:
  assumes "created_marker_path q"
  shows "resolve (append_str x MARKER_DOWNLOADED) \<noteq> q"
proof
  assume e: "resolve (append_str x MARKER_DOWNLOADED) = q"
  have "endsWith (last q) MARKER_DOWNLOADED"
    using last_append_str[of MARKER_DOWNLOADED x] e by simp
  moreover have "endsWith (last q) MARKER_CREATED"
    using assms by (simp add: created_marker_path_def)
  ultimately show False using suffix_clash by blast
qed

lemma safeDelete_keeps:
  assumes o: "orphan_at n q s" and x: "resolve x \<noteq> q \<or> \<not> is_regular s x"
    and c: "resolve (append_str x MARKER_CREATED) \<noteq> q"
  shows "keeps q s (caught (safeDelete x s))"
proof -
  let ?dl = "append_str x MARKER_DOWNLOADED" and ?cr = "append_str x MARKER_CREATED"
  have qp: "created_marker_path q" using o by (simp add: orphan_at_def)
  have t: "\<And>y e s s'. rmSync_force y s = Threw e s' \<Longrightarrow> s' = s" by (rule rmSync_force_threw)
  have k: "keeps q s (caught (safeDelete_try x s))"
  proof (cases "rmSync_force x s")
    case (Threw e s')
    then show ?thesis using t[OF Threw] by (simp add: safeDelete_try_steps andThen_def caught_def)
  next
    case (Returned s1)
    note r1 = Returned
    have k1: "keeps q s s1" using o x r1 by (rule rm_keeps)
    have o1: "orphan_at n q s1" using o k1 by (rule orphan_keeps)
    show ?thesis
    proof (cases "rmSync_force ?dl s1")
      case (Threw e s')
      then show ?thesis using t[OF Threw] r1 k1
        by (simp add: safeDelete_try_steps andThen_def caught_def)
    next
      case (Returned s2)
      note r2 = Returned
      have "keeps q s1 s2" using o1 marker_dl_not_q[OF qp] r2 by (intro rm_keeps) auto
      then have k2: "keeps q s s2" using k1 keeps_trans by blast
      have o2: "orphan_at n q s2" using o k2 by (rule orphan_keeps)
      show ?thesis
      proof (cases "rmSync_force ?cr s2")
        case (Threw e s')
        then show ?thesis using t[OF Threw] r1 r2 k2
          by (simp add: safeDelete_try_steps andThen_def caught_def)
      next
        case (Returned s3)
        note r3 = Returned
        have "keeps q s2 s3" using o2 c r3 by (intro rm_keeps) auto
        then have k3: "keeps q s s3" using k2 keeps_trans by blast
        have o3: "orphan_at n q s3" using o k3 by (rule orphan_keeps)
        show ?thesis
        proof (cases "clean_empty_dir (dirname x) s3")
          case (Threw e s')
          then show ?thesis using clean_empty_dir_threw[OF Threw] r1 r2 r3 k3
            by (simp add: safeDelete_try_steps andThen_def caught_def)
        next
          case (Returned s4)
          have "keeps q s3 s4" using o3 Returned by (rule clean_keeps)
          then have "keeps q s s4" using k3 keeps_trans by blast
          then show ?thesis using r1 r2 r3 Returned
            by (simp add: safeDelete_try_steps andThen_def caught_def)
        qed
      qed
    qed
  qed
  then show ?thesis by (simp add: safeDelete_result caught_def)
qed





subsection \<open>What the walks keep\<close>

lemma purge_file_keeps:
  assumes o: "orphan_at n q s" and ne: "\<not> endsWith nm MARKER_CREATED"
    and c: "resolve (append_str (join dir nm) MARKER_CREATED) \<noteq> q"
  shows "keeps q s (caught (purge_file ttlMs now (join dir nm) s))"
proof -
  have x: "resolve (join dir nm) \<noteq> q \<or> \<not> is_regular s (join dir nm)"
  proof (cases "nm = []")
    case True
    then have "trailing_slash (join dir nm)" by (simp add: trailing_slash_def join_def)
    then show ?thesis using regular_no_slash by blast
  next
    case False
    have "resolve (join dir nm) \<noteq> q"
    proof
      assume "resolve (join dir nm) = q"
      then have "last q = nm" using False by (auto simp: join_def resolve_def)
      then show False using ne o by (simp add: orphan_at_def created_marker_path_def)
    qed
    then show ?thesis ..
  qed
  show ?thesis
    using safeDelete_keeps[OF o x c]
    by (auto simp: purge_file_def caught_def split: sum.splits)
qed

lemma readdir_entries_stored:
  assumes "readdirSync s dir = Inr es" and "e \<in> set es"
  shows "map_of (files s) (resolve dir @ [name e]) \<noteq> None"
proof -
  obtain k v where kv: "(k, v) \<in> set (files s)" "k \<noteq> []" "butlast k = resolve dir" "name e = last k"
    using assms
    by (auto simp: readdirSync_def children_def split: if_splits option.splits node.splits)
  have "k = resolve dir @ [name e]" using kv(2-4) by (metis append_butlast_last_id)
  then show ?thesis using kv(1) by (metis map_of_eq_None_iff image_eqI fst_conv)
qed

lemma snapshot_not_artifact:
  assumes o: "orphan_at n q s" and r: "readdirSync s dir = Inr es" and e: "e \<in> set es"
  shows "resolve (append_str (join dir (name e)) MARKER_CREATED) \<noteq> q"
proof
  assume a: "resolve (append_str (join dir (name e)) MARKER_CREATED) = q"
  have qp: "created_marker_path q" using o by (simp add: orphan_at_def)
  have c: "stat s (join dir (name e)) = stat s (slice_end q (length MARKER_CREATED))"
    "\<not> trailing_slash (join dir (name e))"
    using created_of_artifact[OF qp a] by auto
  have ne: "name e \<noteq> []" using c(2) by (simp add: trailing_slash_def join_def)
  have "map_of (files s) (resolve (join dir (name e))) \<noteq> None"
    using readdir_entries_stored[OF r e] ne by (simp add: join_def resolve_def)
  then have "stat s (join dir (name e)) \<noteq> None"
    using c(2) by (auto simp: stat_def split: option.splits node.splits)
  then show False using c(1) o by (simp add: orphan_at_def)
qed

lemma caught_simps [simp]: "caught (Returned s) = s" "caught (Threw e s) = s"
  by (simp_all add: caught_def)



lemma purge_keeps:
  "orphan_at n q s \<Longrightarrow> keeps q s (caught (purge_walk ttlMs now dir s))"
  "orphan_at n q s \<Longrightarrow>
   \<forall>e\<in>set es. resolve (append_str (join dir (name e)) MARKER_CREATED) \<noteq> q \<Longrightarrow>
   keeps q s (caught (purge_entries ttlMs now dir es s))"
proof (induction ttlMs now dir s and ttlMs now dir es s rule: purge_walk_purge_entries.induct)
  case (1 ttlMs now dir s)
  show ?case
  proof (cases "readdirSync s dir")
    case (Inl e)
    then show ?thesis by simp
  next
    case (Inr es)
    have "\<forall>e\<in>set es. resolve (append_str (join dir (name e)) MARKER_CREATED) \<noteq> q"
      using snapshot_not_artifact[OF "1.prems" Inr] by blast
    then show ?thesis using "1.IH"[OF Inr "1.prems"] Inr by simp
  qed
next
  case (2 ttlMs now dir s)
  then show ?case by simp
next
  case (3 ttlMs now dir e es s)
  note o = "3.prems"(1)
  have sn: "\<forall>e\<in>set es. resolve (append_str (join dir (name e)) MARKER_CREATED) \<noteq> q"
    and c: "resolve (append_str (join dir (name e)) MARKER_CREATED) \<noteq> q"
    using "3.prems"(2) by auto
  show ?case
  proof (cases "isDirectory e")
    case True
    note dir = True
    have k1: "keeps q s (caught (purge_walk ttlMs now (join dir (name e)) s))"
      using "3.IH"(1)[OF dir o] .
    show ?thesis
    proof (cases "purge_walk ttlMs now (join dir (name e)) s")
      case (Threw x s1)
      then show ?thesis using k1 dir by simp
    next
      case (Returned s1)
      note r1 = Returned
      have k: "keeps q s s1" using k1 r1 by simp
      have o1: "orphan_at n q s1" using o k by (rule orphan_keeps)
      show ?thesis
      proof (cases "clean_empty_dir (join dir (name e)) s1")
        case (Threw x s2)
        then show ?thesis using clean_empty_dir_threw[OF Threw] k r1 dir by simp
      next
        case (Returned s2)
        have "keeps q s1 s2" using o1 Returned by (rule clean_keeps)
        then have k2: "keeps q s s2" using k keeps_trans by blast
        have "keeps q s2 (caught (purge_entries ttlMs now dir es s2))"
          using "3.IH"(2)[OF dir r1 Returned] orphan_keeps[OF o k2] sn by blast
        then have "keeps q s (caught (purge_entries ttlMs now dir es s2))"
          using k2 keeps_trans by blast
        then show ?thesis using r1 Returned dir by simp
      qed
    qed
  next
    case False
    note nd = False
    show ?thesis
    proof (cases "isFile e")
      case True
      note fl = True
      show ?thesis
      proof (cases "endsWith (name e) MARKER_CREATED \<or> endsWith (name e) MARKER_DOWNLOADED")
        case True
        then show ?thesis using "3.IH"(3)[OF nd fl True o sn] nd fl by simp
      next
        case False
        note nm = False
        have k1: "keeps q s (caught (purge_file ttlMs now (join dir (name e)) s))"
          using o nm c by (intro purge_file_keeps) auto
        show ?thesis
        proof (cases "purge_file ttlMs now (join dir (name e)) s")
          case (Threw x s1)
          then show ?thesis using k1 nd fl nm by simp
        next
          case (Returned s1)
          have k: "keeps q s s1" using k1 Returned by simp
          have "keeps q s1 (caught (purge_entries ttlMs now dir es s1))"
            using "3.IH"(4)[OF nd fl nm Returned] orphan_keeps[OF o k] sn by blast
          then have "keeps q s (caught (purge_entries ttlMs now dir es s1))"
            using k keeps_trans by blast
          then show ?thesis using Returned nd fl nm by simp
        qed
      qed
    next
      case False
      then show ?thesis using "3.IH"(5)[OF nd False o sn] nd by simp
    qed
  qed
qed

lemma keeps_clock [simp]: "keeps q s (s\<lparr>clock := x\<rparr>)"
  by (simp add: keeps_def stat_def)




text \<open>The sweep alone needs no condition on a \<open>.downloaded\<close> marker.\<close>

lemma sweep_keeps_orphan:
  "orphan_at n q s \<Longrightarrow> orphan_at n q (caught (purgeOlderThan outputsRoot ttlMs s))"
  using purge_keeps(1) orphan_keeps by (auto simp: purgeOlderThan_def)



end
